theory Spec2Isabelle
  imports Main "HOL-Library.Word"
begin

unbundle bit_operations_syntax

section \<open>Bytes and buffers\<close>

text \<open>
  The chunk pipeline of \<^verbatim>\<open>main.c\<close> works on raw byte buffers through pointers.
  A buffer is a list of bytes and a pointer is a buffer with an offset. Sizes
  (\<^verbatim>\<open>uint64_t\<close>) are natural numbers; the two places where the source
  subtracts from an unsigned size write the wrap-around out (\<open>u64_sub\<close>).
  A byte that was never written reads as 0.
\<close>

type_synonym byte = "8 word"
type_synonym bytes = "byte list"

definition pad :: "nat \<Rightarrow> bytes \<Rightarrow> bytes" where
  "pad n buf = buf @ replicate (n - length buf) 0"

definition rd :: "bytes \<Rightarrow> nat \<Rightarrow> nat \<Rightarrow> bytes" where
  \<comment> \<open>the \<open>n\<close> bytes at \<open>buf + off\<close>\<close>
  "rd buf off n = take n (drop off buf @ replicate n 0)"

definition blit :: "bytes \<Rightarrow> nat \<Rightarrow> bytes \<Rightarrow> bytes" where
  \<comment> \<open>\<^verbatim>\<open>memcpy(buf + off, xs, |xs|)\<close>\<close>
  "blit buf off xs = take off (pad off buf) @ xs @ drop (off + length xs) buf"

definition u64_sub :: "nat \<Rightarrow> nat \<Rightarrow> nat" where
  "u64_sub a b = (a + 2 ^ 64 - b) mod 2 ^ 64"

definition byte_of :: "nat \<Rightarrow> nat \<Rightarrow> byte" where
  "byte_of n k = of_nat (n div 256 ^ k)"

definition htonll :: "nat \<Rightarrow> bytes" where
  \<comment> \<open>the 8 bytes a big-endian \<^verbatim>\<open>uint64_t\<close> store leaves in memory\<close>
  "htonll n = map (byte_of n) [7, 6, 5, 4, 3, 2, 1, 0]"

definition ntohll :: "bytes \<Rightarrow> nat" where
  "ntohll bs = foldl (\<lambda>a b. a * 256 + unat b) 0 (take 8 bs)"

definition htonl :: "32 word \<Rightarrow> bytes" where
  "htonl w = map (\<lambda>k. ucast (drop_bit (8 * k) w)) [3, 2, 1, 0]"

definition ntohl :: "bytes \<Rightarrow> 32 word" where
  "ntohl bs = foldl (\<lambda>a b. push_bit 8 a OR ucast b) 0 (take 4 bs)"

section \<open>Constants of pcompress.h\<close>

text \<open>
  \<^verbatim>\<open>pcompress.h\<close> is not among the sources. The chunk-flag values are the ones the
  comment above \<^verbatim>\<open>start_decompress\<close> (main.c, lines 645-663) draws: of the eight
  flag bits the rightmost is "0 - Uncompressed, 1 - Compressed", the next
  "Chunk was Deduped", the next "Chunk was pre-compressed", three bits hold the
  adaptive-mode algorithm and the leftmost is the chunk size flag. The same comment
  gives the sizes: compressed length 8 bytes, chunk flags 1 byte.
\<close>

definition UNCOMPRESSED :: int where "UNCOMPRESSED = 0"
definition COMPRESSED :: int where "COMPRESSED = 1"
definition CHUNK_FLAG_DEDUP :: int where "CHUNK_FLAG_DEDUP = 2"
definition CHUNK_FLAG_PREPROC :: int where "CHUNK_FLAG_PREPROC = 4"
definition CHSIZE_MASK :: int where "CHSIZE_MASK = 128"
definition COMPRESS_NONE :: int where "COMPRESS_NONE = 0"
definition CHUNK_FLAG_SZ :: nat where "CHUNK_FLAG_SZ = 1"
definition COMPRESSED_CHUNKSZ :: nat where "COMPRESSED_CHUNKSZ = 8"
definition ORIGINAL_CHUNKSZ :: nat where "ORIGINAL_CHUNKSZ = 8"

text \<open>
  Modelled from the spec: the three \<^verbatim>\<open>PREPROC_*\<close> masks of pcompress.h, which is
  not among the sources. Section 4.2, step 4: "bit 0 = LZP applied, bit 1 = Delta2
  applied, high bit = compressed-by-backend".
\<close>

definition PREPROC_TYPE_LZP :: byte where "PREPROC_TYPE_LZP = 1"
definition PREPROC_TYPE_DELTA2 :: byte where "PREPROC_TYPE_DELTA2 = 2"
definition PREPROC_COMPRESSED :: byte where "PREPROC_COMPRESSED = 128"

section \<open>Process globals and external collaborators\<close>

text \<open>The \<^verbatim>\<open>static\<close> option variables of main.c that the chunk pipeline reads.\<close>

record globals =
  enable_rabin_scan :: bool
  enable_fixed_scan :: bool
  enable_rabin_global :: bool
  enable_delta2_encode :: bool
  lzp_preprocess :: bool
  encrypt_type :: int
  adapt_mode :: bool
  cksum_bytes :: nat
  mac_bytes :: nat

text \<open>
  The codecs, preprocessors, dedup engine, checksums and ciphers live in other
  modules; main.c calls them through function pointers and \<^verbatim>\<open>extern\<close>
  declarations. Each is a parameter here. A routine of the shape
  \<^verbatim>\<open>f(src, srclen, dst, &dstlen, level, chdr, data)\<close> is a function from the
  \<open>srclen\<close> source bytes, the value of \<^verbatim>\<open>*dstlen\<close> on entry, the level and
  the chunk-header byte to its return value and the bytes it leaves in \<open>dst\<close>;
  the length of those bytes is \<^verbatim>\<open>*dstlen\<close> on return.
\<close>

datatype trans_dir = ROW | COL

type_synonym compress_func = "bytes \<Rightarrow> nat \<Rightarrow> int \<Rightarrow> byte \<Rightarrow> int \<times> bytes"

record collab =
  compress :: compress_func
  decompress :: compress_func
  lzma_compress :: compress_func
  lzma_decompress :: compress_func
  lzp_hash_size :: "int \<Rightarrow> int"
  lzp_compress :: "bytes \<Rightarrow> int \<Rightarrow> int \<times> bytes"
  lzp_decompress :: "bytes \<Rightarrow> int \<Rightarrow> int \<times> bytes"
  delta2_encode :: "bytes \<Rightarrow> nat \<Rightarrow> int \<Rightarrow> int \<times> bytes"
  delta2_decode :: "bytes \<Rightarrow> nat \<Rightarrow> int \<times> bytes"
  compute_checksum :: "bytes \<Rightarrow> int \<Rightarrow> bytes"
  serialize_checksum :: "bytes \<Rightarrow> bytes"
  deserialize_checksum :: "bytes \<Rightarrow> bytes"
  lzma_crc32 :: "bytes \<Rightarrow> 32 word \<Rightarrow> 32 word"
  hmac :: "bytes \<Rightarrow> bytes"
  crypto_buf :: "bytes \<Rightarrow> nat \<Rightarrow> int \<times> bytes"
  RABIN_HDR_SIZE :: nat
  dedupe_compress :: "bytes \<Rightarrow> bool \<times> nat \<times> bytes"
  dedupe_decompress :: "bytes \<Rightarrow> nat \<Rightarrow> bool \<times> bytes"
  parse_dedupe_hdr :: "bytes \<Rightarrow> nat \<times> nat \<times> nat \<times> nat \<times> nat"
  update_dedupe_hdr :: "bytes \<Rightarrow> nat \<Rightarrow> nat \<Rightarrow> bytes"
  transpose_buf :: "bytes \<Rightarrow> nat \<Rightarrow> trans_dir \<Rightarrow> bytes"

section \<open>preproc_compress and preproc_decompress (main.c, lines 228-356)\<close>

text \<open>
  A call returns its \<^verbatim>\<open>int\<close> result, the buffers behind \<^verbatim>\<open>src\<close> and
  \<^verbatim>\<open>dst\<close>, and \<^verbatim>\<open>*dstlen\<close>. Between the stages of
  \<^verbatim>\<open>preproc_compress\<close> the state is the \<^verbatim>\<open>type\<close> byte,
  \<^verbatim>\<open>srclen\<close> and the two buffers; \<open>so\<close> and \<open>dof\<close> are the offsets of
  the \<^verbatim>\<open>src\<close> and \<^verbatim>\<open>dst\<close> pointers in their buffers. A stage that
  returns early gives \<open>Inl\<close> of what the function returns.
\<close>

type_synonym call_result = "int \<times> bytes \<times> bytes \<times> nat"
type_synonym pp_state = "byte \<times> nat \<times> bytes \<times> bytes"

text \<open>Lines 238-259: LZP, kept only if it reduced the length.\<close>

definition lzp_stage ::
  "globals \<Rightarrow> collab \<Rightarrow> bytes \<Rightarrow> nat \<Rightarrow> nat \<Rightarrow> bytes \<Rightarrow> nat \<Rightarrow> nat \<Rightarrow> int
    \<Rightarrow> call_result + pp_state" where
  "lzp_stage g E src so srclen dst dof dstlen lvl =
    (if lzp_preprocess g then
       (case lzp_compress E (rd src so srclen) (lzp_hash_size E lvl) of (result, out) \<Rightarrow>
          let dst1 = blit dst dof out in
          if result < 0 \<or> result = int srclen then
            (if \<not> enable_delta2_encode g then Inl (- 1, src, dst1, dstlen)
             else Inr (0, srclen, src, dst1))
          else
            Inr (0 OR PREPROC_TYPE_LZP, nat result,
                 blit src so (rd dst1 dof (nat result)), dst1))
     else if \<not> enable_delta2_encode g then Inl (- 1, src, dst, dstlen)
     else Inr (0, srclen, src, dst))"

text \<open>Lines 261-270: Delta2 on the (possibly LZP'd) buffer, kept unless it returned -1.\<close>

definition delta2_stage :: "globals \<Rightarrow> collab \<Rightarrow> int \<Rightarrow> nat \<Rightarrow> nat \<Rightarrow> pp_state \<Rightarrow> pp_state" where
  "delta2_stage g E span so dof st =
    (case st of (type, srclen, src, dst) \<Rightarrow>
      if enable_delta2_encode g \<and> span > 0 then
        (case delta2_encode E (rd src so srclen) srclen span of (result, out) \<Rightarrow>
           let dst1 = blit dst dof out; dstlen' = length out in
           if result \<noteq> - 1 then
             (type OR PREPROC_TYPE_DELTA2, dstlen', blit src so (rd dst1 dof dstlen'), dst1)
           else (type, srclen, src, dst1))
      else st)"

text \<open>
  Lines 272-297: the type byte, the length field, the backend, and the fallback
  that keeps a preprocessed-only payload and still reports success.
\<close>

definition backend_stage ::
  "compress_func \<Rightarrow> int \<Rightarrow> byte \<Rightarrow> nat \<Rightarrow> nat \<Rightarrow> pp_state \<Rightarrow> call_result" where
  "backend_stage cmp_func lvl chdr so dof st =
    (case st of (type, srclen, src, dst) \<Rightarrow>
      let dst1 = blit dst dof [type];
          dst2 = blit dst1 (dof + 1) (htonll srclen)
      in case cmp_func (rd src so srclen) srclen lvl chdr of (result, out) \<Rightarrow>
        let dst3 = blit dst2 (dof + 9) out; dstlen' = length out in
        if result > - 1 \<and> dstlen' < srclen then
          (result, src, blit dst3 dof [hd (rd dst3 dof 1) OR PREPROC_COMPRESSED], dstlen' + 9)
        else
          (if type > 0 then 0 else result, src,
           blit dst3 (dof + 1) (rd src so srclen), srclen + 1))"

definition preproc_compress ::
  "globals \<Rightarrow> collab \<Rightarrow> compress_func \<Rightarrow> bytes \<Rightarrow> nat \<Rightarrow> nat \<Rightarrow> bytes \<Rightarrow> nat \<Rightarrow> nat
    \<Rightarrow> int \<Rightarrow> byte \<Rightarrow> int \<Rightarrow> call_result" where
  "preproc_compress g E cmp_func src so srclen dst dof dstlen lvl chdr span =
    (case lzp_stage g E src so srclen dst dof dstlen lvl of
       Inl r \<Rightarrow> r
     | Inr st \<Rightarrow> backend_stage cmp_func lvl chdr so dof (delta2_stage g E span so dof st))"

text \<open>
  \<^verbatim>\<open>preproc_decompress\<close>. Between its stages the state is the \<^verbatim>\<open>src\<close>
  pointer (buffer and offset), \<^verbatim>\<open>srclen\<close>, \<^verbatim>\<open>dst\<close> and
  \<^verbatim>\<open>*dstlen\<close>. Lines 309-326: the type byte, and the backend when
  \<^verbatim>\<open>PREPROC_COMPRESSED\<close> is set.
\<close>

type_synonym un_state = "bytes \<times> nat \<times> nat \<times> bytes \<times> nat"

definition unwrap_backend ::
  "compress_func \<Rightarrow> bytes \<Rightarrow> nat \<Rightarrow> nat \<Rightarrow> bytes \<Rightarrow> nat \<Rightarrow> nat \<Rightarrow> int \<Rightarrow> byte
    \<Rightarrow> call_result + un_state" where
  "unwrap_backend dec_func src so srclen dst dof dstlen lvl chdr =
    (let type = hd (rd src so 1); srclen1 = u64_sub srclen 1 in
     if type AND PREPROC_COMPRESSED \<noteq> 0 then
       (let dstlen1 = ntohll (rd src (so + 1) 8); srclen2 = u64_sub srclen1 8 in
        case dec_func (rd src (so + 9) srclen2) dstlen1 lvl chdr of (result, out) \<Rightarrow>
          let dst1 = blit dst dof out; dstlen2 = length out in
          if result < 0 then Inl (result, src, dst1, dstlen2)
          else Inr (blit src so (rd dst1 dof dstlen2), so, dstlen2, dst1, dstlen2))
     else Inr (src, so + 1, srclen1, dst, dstlen))"

text \<open>
  Lines 328-337: Delta2 decoding; its capacity argument is \<^verbatim>\<open>_dstlen\<close>, the
  caller's \<^verbatim>\<open>*dstlen\<close> saved on entry.
\<close>

definition unwrap_delta2 ::
  "collab \<Rightarrow> byte \<Rightarrow> nat \<Rightarrow> nat \<Rightarrow> un_state \<Rightarrow> call_result + un_state" where
  "unwrap_delta2 E type dof dstlen0 st =
    (case st of (src, so, srclen, dst, dstlen) \<Rightarrow>
      if type AND PREPROC_TYPE_DELTA2 \<noteq> 0 then
        (case delta2_decode E (rd src so srclen) dstlen0 of (result, out) \<Rightarrow>
           let dst1 = blit dst dof out; dstlen' = length out in
           if result \<noteq> - 1 then
             Inr (blit src so (rd dst1 dof dstlen'), so, dstlen', dst1, dstlen')
           else Inl (result, src, dst1, dstlen))
      else Inr st)"

text \<open>Lines 339-355: LZP decompression and the check for unknown flags.\<close>

definition unwrap_lzp :: "collab \<Rightarrow> byte \<Rightarrow> nat \<Rightarrow> int \<Rightarrow> un_state \<Rightarrow> call_result" where
  "unwrap_lzp E type dof lvl st =
    (case st of (src, so, srclen, dst, dstlen) \<Rightarrow>
      (case (if type AND PREPROC_TYPE_LZP \<noteq> 0 then
               (case lzp_decompress E (rd src so srclen) (lzp_hash_size E lvl) of (result, out) \<Rightarrow>
                  if result < 0 then Inl (- 1, src, blit dst dof out, dstlen)
                  else Inr (blit dst dof out, nat result))
             else Inr (dst, dstlen)) of
         Inl r \<Rightarrow> r
       | Inr (dst1, dstlen1) \<Rightarrow>
           if type AND (PREPROC_COMPRESSED OR PREPROC_TYPE_DELTA2 OR PREPROC_TYPE_LZP) = 0
              \<and> type > 0
           then (- 1, src, dst1, dstlen1)
           else (0, src, dst1, dstlen1)))"

definition preproc_decompress ::
  "collab \<Rightarrow> compress_func \<Rightarrow> bytes \<Rightarrow> nat \<Rightarrow> nat \<Rightarrow> bytes \<Rightarrow> nat \<Rightarrow> nat \<Rightarrow> int \<Rightarrow> byte
    \<Rightarrow> call_result" where
  "preproc_decompress E dec_func src so srclen dst dof dstlen lvl chdr =
    (let type = hd (rd src so 1) in
     case unwrap_backend dec_func src so srclen dst dof dstlen lvl chdr of
       Inl r \<Rightarrow> r
     | Inr st \<Rightarrow>
        (case unwrap_delta2 E type dof dstlen st of
           Inl r \<Rightarrow> r
         | Inr st' \<Rightarrow> unwrap_lzp E type dof lvl st'))"

section \<open>perform_compress (main.c, lines 1312-1573)\<close>

text \<open>
  \<^verbatim>\<open>struct cmp_data\<close>, the per-worker slot, with the fields of the dedup context
  and of the codec properties that the worker reads through \<^verbatim>\<open>tdat->rctx\<close> and
  \<^verbatim>\<open>tdat->props\<close>. When compressing, \<^verbatim>\<open>tdat->compressed_chunk\<close> points
  into \<^verbatim>\<open>cmp_seg\<close> at \<open>hdr_off\<close> (lines 2101 and 2124) and the model
  addresses \<open>cmp_seg\<close>; when decompressing it is a buffer of its own.
\<close>

record cmp_data =
  cmp_seg :: bytes
  compressed_chunk :: bytes
  uncompressed_chunk :: bytes
  rbytes :: nat
  chunksize :: nat
  len_cmp :: nat
  len_cmp_be :: bytes
  checksum :: bytes
  level :: int
  cksum_mt :: int
  chunk_id :: nat
  rctx_valid :: bool
  rctx_level :: int
  delta2_span :: int

datatype error =
  EncryptFail | HmacFail | DecryptFail | CrcFail | DecompressFail | DedupRecoveryFail
  | ChecksumFail

definition hdr_off :: "globals \<Rightarrow> nat" where
  "hdr_off g = COMPRESSED_CHUNKSZ + cksum_bytes g + mac_bytes g"

definition dedup_on :: "globals \<Rightarrow> bool" where
  "dedup_on g = (enable_rabin_scan g \<or> enable_fixed_scan g)"

definition preproc_on :: "globals \<Rightarrow> bool" where
  "preproc_on g = (lzp_preprocess g \<or> enable_delta2_encode g)"

text \<open>
  Lines 1332-1362: the plaintext checksum and the dedup engine. With dedup the chunk
  is in \<^verbatim>\<open>cmp_seg\<close> and is deduplicated into \<^verbatim>\<open>uncompressed_chunk\<close>;
  the engine returns the index size, sets \<^verbatim>\<open>rctx->valid\<close> and updates
  \<^verbatim>\<open>tdat->rbytes\<close>. The result is the slot and \<^verbatim>\<open>dedupe_index_sz\<close>.
\<close>

definition dedup_stage :: "globals \<Rightarrow> collab \<Rightarrow> cmp_data \<Rightarrow> cmp_data \<times> nat" where
  "dedup_stage g E t =
    (let rbytes0 = rbytes t in
     if dedup_on g then
       (let t1 = (if encrypt_type g = 0
                  then t\<lparr>checksum := compute_checksum E (rd (cmp_seg t) 0 (rbytes t)) (cksum_mt t)\<rparr>
                  else t)
        in case dedupe_compress E (rd (cmp_seg t1) 0 (rbytes t1)) of (valid, index_sz, out) \<Rightarrow>
          let t2 = t1\<lparr>uncompressed_chunk := blit (uncompressed_chunk t1) 0 out,
                       rbytes := length out, rctx_valid := valid\<rparr>
          in if \<not> valid then
               (t2\<lparr>uncompressed_chunk := blit (uncompressed_chunk t2) 0 (rd (cmp_seg t2) 0 rbytes0),
                    rbytes := rbytes0\<rparr>, index_sz)
             else (t2, index_sz))
     else
       ((if encrypt_type g = 0
         then t\<lparr>checksum := compute_checksum E (rd (uncompressed_chunk t) 0 (rbytes t)) (cksum_mt t)\<rparr>
         else t), 0))"

text \<open>
  Lines 1376-1404: the index table is transposed with element size
  \<^verbatim>\<open>sizeof (uint32_t)\<close> and, from 90 bytes on, handed to
  \<^verbatim>\<open>lzma_compress(src, srclen, dst, &dstlen, level, chdr, data)\<close> with
  \<^verbatim>\<open>tdat->rctx->level\<close> as level and 255 as chunk-header byte. The result is the
  slot and \<^verbatim>\<open>index_size_cmp\<close>.
\<close>

definition compress_index :: "globals \<Rightarrow> collab \<Rightarrow> cmp_data \<Rightarrow> nat \<Rightarrow> cmp_data \<times> nat" where
  "compress_index g E t dedupe_index_sz =
    (let cc = hdr_off g + CHUNK_FLAG_SZ; H = RABIN_HDR_SIZE E;
         seg1 = blit (cmp_seg t) (cc + H)
                  (transpose_buf E (rd (uncompressed_chunk t) H dedupe_index_sz) 4 ROW);
         ub1 = blit (uncompressed_chunk t) H (rd seg1 (cc + H) dedupe_index_sz)
     in if dedupe_index_sz \<ge> 90 then
          (case lzma_compress E (rd ub1 H dedupe_index_sz) dedupe_index_sz (rctx_level t) 255 of
             (rv, out) \<Rightarrow>
               let seg2 = blit seg1 (cc + H) out; index_size_cmp = length out in
               if rv \<noteq> 0 \<or> index_size_cmp \<ge> dedupe_index_sz then
                 (t\<lparr>cmp_seg := blit seg2 (cc + H) (rd ub1 H dedupe_index_sz),
                     uncompressed_chunk := ub1\<rparr>, dedupe_index_sz)
               else (t\<lparr>cmp_seg := seg2, uncompressed_chunk := ub1\<rparr>, index_size_cmp))
        else (t\<lparr>cmp_seg := blit seg1 (cc + H) (rd ub1 H dedupe_index_sz),
                 uncompressed_chunk := ub1\<rparr>, dedupe_index_sz))"

text \<open>
  The data compression call of lines 1410-1423 and 1434-1448: through
  \<^verbatim>\<open>preproc_compress\<close> when a preprocessor is enabled, else the codec directly.
\<close>

definition compress_data ::
  "globals \<Rightarrow> collab \<Rightarrow> cmp_data \<Rightarrow> bytes \<Rightarrow> nat \<Rightarrow> nat \<Rightarrow> bytes \<Rightarrow> nat \<Rightarrow> call_result" where
  "compress_data g E t src so srclen dst dof =
    (if preproc_on g then
       preproc_compress g E (compress E) src so srclen dst dof srclen (level t) 0 (delta2_span t)
     else
       (case compress E (rd src so srclen) srclen (level t) 0 of (rv, out) \<Rightarrow>
          (rv, src, blit dst dof out, length out)))"

text \<open>
  Lines 1369-1449. The result is the slot, \<^verbatim>\<open>rv\<close> and \<^verbatim>\<open>_chunksize\<close>.
\<close>

definition compress_stage ::
  "globals \<Rightarrow> collab \<Rightarrow> cmp_data \<Rightarrow> nat \<Rightarrow> cmp_data \<times> int \<times> nat" where
  "compress_stage g E t dedupe_index_sz =
    (let cc = hdr_off g + CHUNK_FLAG_SZ; H = RABIN_HDR_SIZE E in
     if dedup_on g \<and> rctx_valid t then
       (let csz0 = u64_sub (u64_sub (rbytes t) dedupe_index_sz) H in
        case compress_index g E t dedupe_index_sz of (t1, isc) \<Rightarrow>
          let index_size_cmp = isc + H; dix = dedupe_index_sz + H;
              seg1 = blit (cmp_seg t1) cc (rd (uncompressed_chunk t1) 0 H)
          in case compress_data g E t1 (uncompressed_chunk t1) dix csz0 seg1 (cc + index_size_cmp) of
            (rv, ub2, seg2, csz) \<Rightarrow>
              let seg3 = (if rv < 0 then blit seg2 (cc + index_size_cmp) (rd ub2 dix csz) else seg2);
                  seg4 = blit seg3 cc
                           (rd (update_dedupe_hdr E (rd seg3 cc H) (index_size_cmp - H) csz) 0 H)
              in (t1\<lparr>cmp_seg := seg4, uncompressed_chunk := ub2\<rparr>, rv, csz + index_size_cmp))
     else
       (case compress_data g E t (uncompressed_chunk t) 0 (rbytes t) (cmp_seg t) cc of
          (rv, ub, seg, csz) \<Rightarrow> (t\<lparr>cmp_seg := seg, uncompressed_chunk := ub\<rparr>, rv, csz)))"

text \<open>
  Lines 1497-1532, the chunk flags: \<^verbatim>\<open>type\<close> is an \<^verbatim>\<open>int\<close>, stored into
  the flag byte at the end. \<open>fallback\<close> is the test of line 1458, \<open>short\<close> that
  of line 1522.
\<close>

definition chunk_type :: "globals \<Rightarrow> bool \<Rightarrow> bool \<Rightarrow> int \<Rightarrow> bool \<Rightarrow> int" where
  "chunk_type g valid fallback rv short =
    (let type0 = (if fallback then UNCOMPRESSED else COMPRESSED);
         type1 = (if dedup_on g \<and> valid then type0 OR CHUNK_FLAG_DEDUP else type0);
         type2 = (if preproc_on g then type1 OR CHUNK_FLAG_PREPROC else type1);
         type3 = (if adapt_mode g then type2 OR push_bit 4 rv else type2)
     in if short then type3 OR CHSIZE_MASK else type3)"

text \<open>
  Lines 1537-1569: the mac slot is zeroed, then filled with the HMAC of the whole
  frame or with the CRC32 of the \<open>hsz\<close> header bytes and of the trailing original
  size. \<open>tlen\<close> is \<^verbatim>\<open>tdat->len_cmp\<close>, the length of the frame.
\<close>

definition authenticate :: "globals \<Rightarrow> collab \<Rightarrow> bytes \<Rightarrow> nat \<Rightarrow> nat \<Rightarrow> int \<Rightarrow> bytes" where
  "authenticate g E seg tlen hsz type =
    (let mac_ptr = COMPRESSED_CHUNKSZ + cksum_bytes g;
         seg1 = blit seg mac_ptr (replicate (mac_bytes g) 0)
     in if encrypt_type g \<noteq> 0 then
          (let chash = hmac E (rd seg1 0 tlen)
           in blit seg1 mac_ptr (rd (serialize_checksum E chash) 0 (length chash)))
        else
          (let crc = lzma_crc32 E (rd seg1 0 hsz) 0;
               crc' = (if type AND CHSIZE_MASK \<noteq> 0
                       then lzma_crc32 E (rd seg1 (tlen - ORIGINAL_CHUNKSZ) ORIGINAL_CHUNKSZ) crc
                       else crc)
           in blit seg1 mac_ptr (htonl crc')))"

text \<open>
  Lines 1451-1569, from the sanity check on: \<open>rbytes0\<close> is the local
  \<^verbatim>\<open>rbytes\<close> (the chunk length before dedup), \<open>rv0\<close> and \<open>csz\<close> are
  \<^verbatim>\<open>rv\<close> and \<^verbatim>\<open>_chunksize\<close> after compression.
\<close>

definition frame_chunk ::
  "globals \<Rightarrow> collab \<Rightarrow> cmp_data \<Rightarrow> nat \<Rightarrow> int \<Rightarrow> nat \<Rightarrow> error + cmp_data" where
  "frame_chunk g E t rbytes0 rv0 csz =
    (let cc = hdr_off g + CHUNK_FLAG_SZ;
         fallback = (csz \<ge> rbytes0 \<or> rv0 < 0);
         seg1 = (if fallback \<and> (\<not> dedup_on g \<or> \<not> rctx_valid t)
                 then blit (cmp_seg t) cc (rd (uncompressed_chunk t) 0 (rbytes t))
                 else cmp_seg t);
         len1 = (if fallback then rbytes t else csz);
         rv = (if fallback \<and> rv0 < 0 then COMPRESS_NONE else rv0)
     in case (if encrypt_type g \<noteq> 0 then
                (case crypto_buf E (rd seg1 cc len1) (chunk_id t) of (ret, out) \<Rightarrow>
                   if ret = - 1 then Inl EncryptFail else Inr (blit seg1 cc out))
              else Inr seg1) of
          Inl e \<Rightarrow> Inl e
        | Inr seg2 \<Rightarrow>
           (let seg3 = blit seg2 0 (htonll len1);
                seg4 = (if encrypt_type g = 0
                        then blit seg3 COMPRESSED_CHUNKSZ
                               (rd (serialize_checksum E (rd (checksum t) 0 (cksum_bytes g))) 0
                                   (cksum_bytes g))
                        else seg3);
                tlen = len1 + CHUNK_FLAG_SZ + COMPRESSED_CHUNKSZ + (cksum_bytes g + mac_bytes g);
                hsz = tlen - len1;
                short = (rbytes t < chunksize t);
                type = chunk_type g (rctx_valid t) fallback rv short;
                seg5 = (if short
                        then blit (blit seg4 tlen (htonll (rbytes t))) 0
                               (htonll (len1 + ORIGINAL_CHUNKSZ))
                        else seg4);
                tlen' = (if short then tlen + ORIGINAL_CHUNKSZ else tlen);
                seg6 = blit seg5 (hdr_off g) [of_int type]
            in Inr (t\<lparr>cmp_seg := authenticate g E seg6 tlen' hsz type, len_cmp := tlen'\<rparr>)))"

text \<open>One pass of the worker loop, between the two semaphore operations.\<close>

definition perform_compress :: "globals \<Rightarrow> collab \<Rightarrow> cmp_data \<Rightarrow> error + cmp_data" where
  "perform_compress g E t =
    (case dedup_stage g E t of (t1, dedupe_index_sz) \<Rightarrow>
       case compress_stage g E t1 dedupe_index_sz of (t2, rv, csz) \<Rightarrow>
         frame_chunk g E t2 (rbytes t) rv csz)"

text \<open>What the writer thread writes for the chunk (line 1598).\<close>

definition frame_bytes :: "cmp_data \<Rightarrow> bytes" where
  "frame_bytes t = rd (cmp_seg t) 0 (len_cmp t)"

section \<open>perform_decompress (main.c, lines 364-631)\<close>

text \<open>
  Lines 392-403: the flag byte, and the original size when \<^verbatim>\<open>CHSIZE_MASK\<close> is
  set. The result is \<^verbatim>\<open>HDR\<close>, the slot and \<^verbatim>\<open>_chunksize\<close>.
\<close>

definition read_flags :: "globals \<Rightarrow> cmp_data \<Rightarrow> byte \<times> cmp_data \<times> nat" where
  "read_flags g t =
    (let HDR = hd (rd (compressed_chunk t) (cksum_bytes g + mac_bytes g) 1) in
     if uint HDR AND CHSIZE_MASK \<noteq> 0 then
       (let t1 = t\<lparr>rbytes := u64_sub (rbytes t) ORIGINAL_CHUNKSZ,
                    len_cmp := u64_sub (len_cmp t) ORIGINAL_CHUNKSZ\<rparr>
        in (HDR, t1, ntohll (rd (compressed_chunk t1) (rbytes t1) 8)))
     else (HDR, t, chunksize t))"

text \<open>
  Lines 409-493: the HMAC over the length, the chunk with a zeroed mac slot and the
  original size, then decryption; or the CRC32 over the length, the
  \<open>cksum_bytes + mac_bytes + CHUNK_FLAG_SZ\<close> header bytes and the original size.
\<close>

definition verify_chunk :: "globals \<Rightarrow> collab \<Rightarrow> byte \<Rightarrow> cmp_data \<Rightarrow> error + cmp_data" where
  "verify_chunk g E HDR t =
    (let cseg = cksum_bytes g + mac_bytes g + CHUNK_FLAG_SZ;
         trailer = (if uint HDR AND CHSIZE_MASK \<noteq> 0
                    then rd (compressed_chunk t) (rbytes t) ORIGINAL_CHUNKSZ else [])
     in if encrypt_type g \<noteq> 0 then
          (let cksum1 = deserialize_checksum E (rd (compressed_chunk t) (cksum_bytes g) (mac_bytes g));
               cb1 = blit (compressed_chunk t) (cksum_bytes g) (replicate (mac_bytes g) 0);
               mac = hmac E (len_cmp_be t @ rd cb1 0 (rbytes t) @ trailer)
           in if rd cksum1 0 (length mac) \<noteq> rd mac 0 (length mac) then Inl HmacFail
              else (case crypto_buf E (rd cb1 cseg (len_cmp t)) (chunk_id t) of (rv, out) \<Rightarrow>
                      if rv = - 1 then Inl DecryptFail
                      else Inr (t\<lparr>compressed_chunk := blit cb1 cseg out, checksum := mac\<rparr>)))
        else if mac_bytes g > 0 then
          (let crc1 = ntohl (rd (compressed_chunk t) (cksum_bytes g) 4);
               cb1 = blit (compressed_chunk t) (cksum_bytes g) (replicate (mac_bytes g) 0);
               crc2 = lzma_crc32 E (len_cmp_be t) 0;
               crc3 = lzma_crc32 E (rd cb1 0 cseg) crc2;
               crc4 = (if uint HDR AND CHSIZE_MASK \<noteq> 0
                       then lzma_crc32 E (rd cb1 (rbytes t) ORIGINAL_CHUNKSZ) crc3 else crc3)
           in if crc1 \<noteq> crc4 then Inl CrcFail
              else Inr (t\<lparr>compressed_chunk := cb1,
                           checksum := deserialize_checksum E (rd cb1 0 (cksum_bytes g))\<rparr>))
        else Inr t)"

text \<open>
  Lines 536-551: the index is decompressed when it is at least 90 bytes and larger
  than its stored size, else copied; then the transposition is undone. The result
  is \<^verbatim>\<open>rv\<close> and the two buffers.
\<close>

definition decompress_index ::
  "globals \<Rightarrow> collab \<Rightarrow> cmp_data \<Rightarrow> nat \<Rightarrow> nat \<Rightarrow> int \<times> bytes \<times> bytes" where
  "decompress_index g E t dedupe_index_sz dedupe_index_sz_cmp =
    (let cmpbuf = cksum_bytes g + mac_bytes g + CHUNK_FLAG_SZ + RABIN_HDR_SIZE E;
         ubuf = RABIN_HDR_SIZE E
     in case (if dedupe_index_sz \<ge> 90 \<and> dedupe_index_sz > dedupe_index_sz_cmp then
                (case lzma_decompress E (rd (compressed_chunk t) cmpbuf dedupe_index_sz_cmp)
                        dedupe_index_sz (rctx_level t) 0 of
                   (rv, out) \<Rightarrow> (rv, blit (uncompressed_chunk t) ubuf out, length out))
              else (0, blit (uncompressed_chunk t) ubuf
                         (rd (compressed_chunk t) cmpbuf dedupe_index_sz), dedupe_index_sz)) of
          (rv, ub1, isz) \<Rightarrow>
            let cb1 = blit (compressed_chunk t) cmpbuf (transpose_buf E (rd ub1 ubuf isz) 4 COL)
            in (rv, cb1, blit ub1 ubuf (rd cb1 cmpbuf isz)))"

text \<open>
  The data decompression call of lines 511-533 and 554-571: the codec (through
  \<^verbatim>\<open>preproc_decompress\<close> when \<^verbatim>\<open>CHUNK_FLAG_PREPROC\<close> is set) when the chunk
  is \<^verbatim>\<open>COMPRESSED\<close>, else a plain copy of \<^verbatim>\<open>_chunksize\<close> bytes.
\<close>

definition decompress_data ::
  "collab \<Rightarrow> byte \<Rightarrow> cmp_data \<Rightarrow> bytes \<Rightarrow> nat \<Rightarrow> nat \<Rightarrow> bytes \<Rightarrow> nat \<Rightarrow> nat \<Rightarrow> call_result" where
  "decompress_data E HDR t src so srclen dst dof csz =
    (if uint HDR AND COMPRESSED \<noteq> 0 then
       (if uint HDR AND CHUNK_FLAG_PREPROC \<noteq> 0 then
          preproc_decompress E (decompress E) src so srclen dst dof csz (level t) HDR
        else
          (case decompress E (rd src so srclen) csz (level t) HDR of (rv, out) \<Rightarrow>
             (rv, src, blit dst dof out, length out)))
     else (0, src, blit dst dof (rd src so csz), csz))"

text \<open>
  One pass of the worker loop for a chunk that was read (\<^verbatim>\<open>rbytes\<close> not 0). The
  writer writes \<^verbatim>\<open>len_cmp\<close> bytes of \<^verbatim>\<open>cmp_seg\<close>, which is
  \<^verbatim>\<open>uncompressed_chunk\<close> when decompressing (lines 601 and 1227).
\<close>

definition perform_decompress :: "globals \<Rightarrow> collab \<Rightarrow> cmp_data \<Rightarrow> error + cmp_data" where
  "perform_decompress g E t0 =
    (case read_flags g t0 of (HDR, t1, csz0) \<Rightarrow>
     (case verify_chunk g E HDR t1 of
       Inl e \<Rightarrow> Inl e
     | Inr t \<Rightarrow>
       (let cseg = cksum_bytes g + mac_bytes g + CHUNK_FLAG_SZ; H = RABIN_HDR_SIZE E;
            deduped = (uint HDR AND CHUNK_FLAG_DEDUP \<noteq> 0)
        in case
          (if (dedup_on g \<or> enable_rabin_global g) \<and> deduped then
             (case parse_dedupe_hdr E (rd (compressed_chunk t) cseg H) of
                (dedupe_index_sz, dedupe_data_sz, dedupe_index_sz_cmp, dedupe_data_sz_cmp, csz1) \<Rightarrow>
                  let ub0 = blit (uncompressed_chunk t) 0 (rd (compressed_chunk t) cseg H) in
                  case decompress_data E HDR t (compressed_chunk t) (cseg + H + dedupe_index_sz_cmp)
                         dedupe_data_sz_cmp ub0 (H + dedupe_index_sz) csz1 of
                    (rv, cb1, ub1, csz2) \<Rightarrow>
                      if uint HDR AND COMPRESSED \<noteq> 0 \<and> rv = - 1 then Inl DecompressFail
                      else (case decompress_index g E
                                   (t\<lparr>compressed_chunk := cb1, uncompressed_chunk := ub1\<rparr>)
                                   dedupe_index_sz dedupe_index_sz_cmp of
                              (rv', cb2, ub2) \<Rightarrow>
                                Inr (rv', t\<lparr>compressed_chunk := cb2, uncompressed_chunk := ub2\<rparr>, csz2)))
           else
             (case decompress_data E HDR t (compressed_chunk t) cseg (len_cmp t)
                     (uncompressed_chunk t) 0 csz0 of
                (rv, cb1, ub1, csz2) \<Rightarrow>
                  Inr (rv, t\<lparr>compressed_chunk := cb1, uncompressed_chunk := ub1\<rparr>, csz2))) of
          Inl e \<Rightarrow> Inl e
        | Inr (rv, t2, csz) \<Rightarrow>
           if rv = - 1 then Inl DecompressFail
           else
            (case (if dedup_on g \<and> deduped then
                     (case dedupe_decompress E (uncompressed_chunk t2) csz of (valid, out) \<Rightarrow>
                        if \<not> valid then Inl DedupRecoveryFail
                        else Inr (t2\<lparr>uncompressed_chunk := blit (compressed_chunk t2) 0 out,
                                     compressed_chunk := uncompressed_chunk t2,
                                     len_cmp := length out\<rparr>))
                   else Inr (t2\<lparr>len_cmp := csz\<rparr>)) of
               Inl e \<Rightarrow> Inl e
             | Inr t3 \<Rightarrow>
                if encrypt_type g = 0 \<and>
                   rd (compute_checksum E (rd (uncompressed_chunk t3) 0 (len_cmp t3)) (cksum_mt t3))
                      0 (cksum_bytes g)
                   \<noteq> rd (checksum t3) 0 (cksum_bytes g)
                then Inl ChecksumFail
                else Inr (t3\<lparr>cmp_seg := uncompressed_chunk t3\<rparr>)))))"

section \<open>Header checks of start_decompress (main.c, lines 742-770)\<close>

text \<open>
  \<open>version\<close> is the \<^verbatim>\<open>short\<close> that holds \<^verbatim>\<open>ntohs\<close> of the two
  header bytes, compared as a signed value; \<open>lvl\<close> is the \<^verbatim>\<open>int\<close> level.
  \<^verbatim>\<open>VERSION\<close> and \<^verbatim>\<open>MAX_LEVEL\<close> (pcompress.h) and the test
  \<^verbatim>\<open>chunksize > EIGHTY_PCT(get_total_ram())\<close> (utils.h) are parameters. Every
  failing check leaves through \<^verbatim>\<open>uncomp_done\<close> before a worker thread is
  created or a chunk is read (lines 1063 and 1164 onwards).
\<close>

datatype hdr_error = NewerVersion | ChunkTooBig | BadLevel | UnsupportedVersion

definition header_checks ::
  "int \<Rightarrow> int \<Rightarrow> (64 word \<Rightarrow> bool) \<Rightarrow> 16 word \<Rightarrow> 64 word \<Rightarrow> 32 word \<Rightarrow> hdr_error + unit" where
  "header_checks VERSION MAX_LEVEL exceeds_ram version csize lvl =
    (if sint version > VERSION then Inl NewerVersion
     else if exceeds_ram csize then Inl ChunkTooBig
     else if sint lvl > MAX_LEVEL \<or> sint lvl < 0 then Inl BadLevel
     else if sint version < VERSION - 3 then Inl UnsupportedVersion
     else Inr ())"

section \<open>The parts of a frame\<close>

text \<open>
  Names for what \<^verbatim>\<open>perform_compress\<close> puts into a frame, read off lines
  1457-1569: the test of line 1458, the payload and its length, the flag byte, the
  length field, the trailing original size, the checksum slot and the CRC32.
\<close>

definition fallback_of :: "nat \<Rightarrow> int \<Rightarrow> nat \<Rightarrow> bool" where
  "fallback_of rbytes0 rv0 csz = (csz \<ge> rbytes0 \<or> rv0 < 0)"

definition payload_len :: "cmp_data \<Rightarrow> nat \<Rightarrow> int \<Rightarrow> nat \<Rightarrow> nat" where
  "payload_len t rbytes0 rv0 csz = (if fallback_of rbytes0 rv0 csz then rbytes t else csz)"

definition payload_of :: "globals \<Rightarrow> cmp_data \<Rightarrow> nat \<Rightarrow> int \<Rightarrow> nat \<Rightarrow> bytes" where
  "payload_of g t rbytes0 rv0 csz =
    (if fallback_of rbytes0 rv0 csz \<and> (\<not> dedup_on g \<or> \<not> rctx_valid t)
     then rd (uncompressed_chunk t) 0 (rbytes t)
     else rd (cmp_seg t) (hdr_off g + CHUNK_FLAG_SZ) (payload_len t rbytes0 rv0 csz))"

definition flag_of :: "globals \<Rightarrow> cmp_data \<Rightarrow> nat \<Rightarrow> int \<Rightarrow> nat \<Rightarrow> byte" where
  "flag_of g t rbytes0 rv0 csz =
    of_int (chunk_type g (rctx_valid t) (fallback_of rbytes0 rv0 csz)
              (if fallback_of rbytes0 rv0 csz \<and> rv0 < 0 then COMPRESS_NONE else rv0)
              (rbytes t < chunksize t))"

definition len_field :: "cmp_data \<Rightarrow> nat \<Rightarrow> int \<Rightarrow> nat \<Rightarrow> nat" where
  "len_field t rbytes0 rv0 csz =
    (if rbytes t < chunksize t then payload_len t rbytes0 rv0 csz + ORIGINAL_CHUNKSZ
     else payload_len t rbytes0 rv0 csz)"

definition trailer_of :: "cmp_data \<Rightarrow> bytes" where
  "trailer_of t = (if rbytes t < chunksize t then htonll (rbytes t) else [])"

definition cksum_slot :: "globals \<Rightarrow> collab \<Rightarrow> cmp_data \<Rightarrow> bytes" where
  "cksum_slot g E t = rd (serialize_checksum E (rd (checksum t) 0 (cksum_bytes g))) 0 (cksum_bytes g)"

definition chunk_crc :: "globals \<Rightarrow> collab \<Rightarrow> cmp_data \<Rightarrow> nat \<Rightarrow> int \<Rightarrow> nat \<Rightarrow> 32 word" where
  "chunk_crc g E t rbytes0 rv0 csz =
    (let crc = lzma_crc32 E (htonll (len_field t rbytes0 rv0 csz) @ cksum_slot g E t
                              @ replicate (mac_bytes g) 0 @ [flag_of g t rbytes0 rv0 csz]) 0
     in if rbytes t < chunksize t then lzma_crc32 E (htonll (rbytes t)) crc else crc)"

section \<open>Reading a chunk back (main.c, lines 1176-1253)\<close>

text \<open>
  The reader of \<^verbatim>\<open>start_decompress\<close>: the 8-byte big-endian length, the checks
  of lines 1191-1203, then \<^verbatim>\<open>len_cmp + cksum_bytes + mac_bytes + CHUNK_FLAG_SZ\<close>
  bytes into \<^verbatim>\<open>compressed_chunk\<close>. A length of 0 ends the stream. The result is
  the slot and the rest of the input.
\<close>

datatype read_error = IncompleteHeader | LengthTooBig | IncompleteChunk

definition read_chunk ::
  "globals \<Rightarrow> nat \<Rightarrow> bytes \<Rightarrow> cmp_data \<Rightarrow> read_error + (cmp_data \<times> bytes) option" where
  "read_chunk g csize inp t =
    (if length inp < 8 then Inl IncompleteHeader
     else
       (let be = take 8 inp; n = ntohll be in
        if n > csize + 256 then Inl LengthTooBig
        else if n = 0 then Inr None
        else
          (let want = n + cksum_bytes g + mac_bytes g + CHUNK_FLAG_SZ;
               body = take want (drop 8 inp)
           in if length body < want then Inl IncompleteChunk
              else Inr (Some (t\<lparr>len_cmp_be := be, len_cmp := n,
                                   compressed_chunk := blit (compressed_chunk t) 0 body,
                                   rbytes := length body\<rparr>,
                              drop (8 + want) inp)))))"

text \<open>
  What the chunk layer needs from the collaborators: a CRC32 that can be continued
  from a previous value, as \<^verbatim>\<open>lzma_crc32(buf, len, crc)\<close> is used on lines
  1560-1567, and a checksum serialisation that \<^verbatim>\<open>deserialize_checksum\<close> undoes.
\<close>

definition crc_chains :: "collab \<Rightarrow> bool" where
  "crc_chains E = (\<forall>a b k. lzma_crc32 E (a @ b) k = lzma_crc32 E b (lzma_crc32 E a k))"

definition cksum_codec :: "globals \<Rightarrow> collab \<Rightarrow> bool" where
  "cksum_codec g E =
    (\<forall>x. length x = cksum_bytes g \<longrightarrow>
       rd (deserialize_checksum E (rd (serialize_checksum E x) 0 (cksum_bytes g))) 0 (cksum_bytes g) = x)"

text \<open>
  A slot into which the reader has put a chunk made of the checksum slot \<open>S\<close>, the
  mac slot \<open>M\<close>, the flag byte, the payload \<open>P\<close> and the trailing original size
  \<open>T\<close>; and the CRC32 that lines 475-485 compute for it.
\<close>

definition loaded :: "globals \<Rightarrow> cmp_data \<Rightarrow> bytes \<Rightarrow> bytes \<Rightarrow> byte \<Rightarrow> bytes \<Rightarrow> bytes \<Rightarrow> bool" where
  "loaded g d S M flag P T =
    (rd (compressed_chunk d) 0 (cksum_bytes g + 5 + length P + length T) = S @ M @ [flag] @ P @ T
     \<and> length S = cksum_bytes g \<and> length M = 4
     \<and> rbytes d = cksum_bytes g + 5 + length P + length T
     \<and> len_cmp d = length P + length T
     \<and> rbytes d < 2 ^ 64
     \<and> (if bit flag 7 then length T = 8 else T = []))"

definition expected_crc :: "collab \<Rightarrow> bytes \<Rightarrow> bytes \<Rightarrow> byte \<Rightarrow> bytes \<Rightarrow> 32 word" where
  "expected_crc E lenbe S flag T =
    (let k = lzma_crc32 E (lenbe @ S @ replicate 4 0 @ [flag]) 0
     in if bit flag 7 then lzma_crc32 E T k else k)"

text \<open>
  \<^verbatim>\<open>perform_compress\<close> up to the sanity check of line 1457: the slot,
  \<^verbatim>\<open>rv\<close> and \<^verbatim>\<open>_chunksize\<close>.
\<close>

definition stage_out :: "globals \<Rightarrow> collab \<Rightarrow> cmp_data \<Rightarrow> cmp_data \<times> int \<times> nat" where
  "stage_out g E t = (case dedup_stage g E t of (t1, isz) \<Rightarrow> compress_stage g E t1 isz)"

text \<open>
  The mac written on lines 1548-1568 fits its slot of \<^verbatim>\<open>mac_bytes\<close> bytes: the
  HMAC in crypto mode, the 4 bytes of the CRC32 otherwise.
\<close>

definition mac_fits :: "globals \<Rightarrow> collab \<Rightarrow> bool" where
  "mac_fits g E =
    (if encrypt_type g \<noteq> 0 then (\<forall>x. length (hmac E x) \<le> mac_bytes g) else 4 \<le> mac_bytes g)"

text \<open>
  The chunk as the producer hands it to the worker: in \<^verbatim>\<open>cmp_seg\<close> with dedup,
  else in \<^verbatim>\<open>uncompressed_chunk\<close> (lines 2119-2143).
\<close>

definition chunk_data :: "globals \<Rightarrow> cmp_data \<Rightarrow> bytes" where
  "chunk_data g t =
    (if dedup_on g then rd (cmp_seg t) 0 (rbytes t) else rd (uncompressed_chunk t) 0 (rbytes t))"

text \<open>
  The same for any width of the mac slot, as in crypto mode: a slot into which the
  reader has put a chunk whose mac slot \<open>M\<close> has \<^verbatim>\<open>mac_bytes\<close> bytes.
\<close>

definition loaded_mac :: "globals \<Rightarrow> cmp_data \<Rightarrow> bytes \<Rightarrow> bytes \<Rightarrow> byte \<Rightarrow> bytes \<Rightarrow> bytes \<Rightarrow> bool" where
  "loaded_mac g d S M flag P T =
    (rd (compressed_chunk d) 0 (cksum_bytes g + mac_bytes g + 1 + length P + length T)
       = S @ M @ [flag] @ P @ T
     \<and> length S = cksum_bytes g \<and> length M = mac_bytes g
     \<and> rbytes d = cksum_bytes g + mac_bytes g + 1 + length P + length T
     \<and> len_cmp d = length P + length T
     \<and> rbytes d < 2 ^ 64
     \<and> (if bit flag 7 then length T = 8 else T = []))"

text \<open>
  What the chunk layer needs from the collaborators in crypto mode: an HMAC of
  \<^verbatim>\<open>mac_bytes\<close> bytes whose serialisation \<^verbatim>\<open>deserialize_checksum\<close> undoes,
  and a cipher (\<^verbatim>\<open>crypto_buf\<close> works in place, lines 1473 and 443) that
  succeeds on the chunk with the chunk id as nonce, keeps the length and gives the
  chunk back when it is applied again.
\<close>

definition mac_codec :: "globals \<Rightarrow> collab \<Rightarrow> bool" where
  "mac_codec g E =
    ((\<forall>x. length (hmac E x) = mac_bytes g) \<and>
     (\<forall>x. length x = mac_bytes g \<longrightarrow>
        rd (deserialize_checksum E (rd (serialize_checksum E x) 0 (mac_bytes g))) 0 (mac_bytes g) = x))"

definition crypto_inverts :: "collab \<Rightarrow> bytes \<Rightarrow> nat \<Rightarrow> bool" where
  "crypto_inverts E x i =
    (case crypto_buf E x i of (ret, out) \<Rightarrow>
       ret \<noteq> - 1 \<and> length out = length x \<and>
       (case crypto_buf E out i of (ret', back) \<Rightarrow> ret' \<noteq> - 1 \<and> back = x))"

section \<open>File setup of start_compress (main.c, lines 1668-1795)\<close>

text \<open>
  The header flags and the chunk size that \<^verbatim>\<open>start_compress\<close> settles before
  it reads the file: the dedup flags of lines 1668-1682, and for a regular file (not
  pipe mode) the sanity checks of lines 1773-1795, which end the run for an empty
  file and shrink the chunk size to the file size for a file of at most one chunk.
  The checksum id is or-ed in on line 1959. \<^verbatim>\<open>FLAG_DEDUP\<close>,
  \<^verbatim>\<open>FLAG_DEDUP_FIXED\<close> and \<^verbatim>\<open>FLAG_SINGLE_CHUNK\<close> (pcompress.h) are
  parameters. The result is the flags, the chunk size and \<^verbatim>\<open>single_chunk\<close>;
  the chunk size goes into the file header (line 1965) and into every slot (line
  1888).
\<close>

definition file_setup ::
  "globals \<Rightarrow> int \<Rightarrow> int \<Rightarrow> int \<Rightarrow> int \<Rightarrow> bool \<Rightarrow> nat \<Rightarrow> nat \<Rightarrow> (int \<times> nat \<times> bool) option" where
  "file_setup g FLAG_DEDUP FLAG_DEDUP_FIXED FLAG_SINGLE_CHUNK cksum pipe_mode st_size csize =
    (let flags0 =
           (if enable_rabin_scan g \<or> enable_fixed_scan g \<or> enable_rabin_global g then
              (if enable_rabin_global g then FLAG_DEDUP OR FLAG_DEDUP_FIXED
               else if enable_rabin_scan g then FLAG_DEDUP
               else FLAG_DEDUP_FIXED)
            else 0)
     in if enable_rabin_global g \<and> pipe_mode then None
        else if \<not> pipe_mode then
          (if st_size = 0 then None
           else if st_size \<le> csize then Some (flags0 OR FLAG_SINGLE_CHUNK OR cksum, st_size, True)
           else Some (flags0 OR cksum, csize, False))
        else Some (flags0 OR cksum, csize, False))"

section \<open>Which transforms were applied\<close>

text \<open>
  A preprocessing stage was successfully applied when it is enabled and its routine
  reported success: LZP a result that is not negative and differs from the input
  length (line 244), Delta2 a result other than -1 with a positive span (lines 261
  and 265).
\<close>

definition lzp_applied :: "globals \<Rightarrow> collab \<Rightarrow> bytes \<Rightarrow> int \<Rightarrow> bool" where
  "lzp_applied g E x lvl =
    (lzp_preprocess g \<and>
     (let result = fst (lzp_compress E x (lzp_hash_size E lvl))
      in 0 \<le> result \<and> result \<noteq> int (length x)))"

definition delta2_applied :: "globals \<Rightarrow> collab \<Rightarrow> bytes \<Rightarrow> int \<Rightarrow> bool" where
  "delta2_applied g E x span =
    (enable_delta2_encode g \<and> span > 0 \<and> fst (delta2_encode E x (length x) span) \<noteq> - 1)"

section \<open>Test doubles for the collaborators\<close>

text \<open>
  Small stand-ins for the external routines, used to run the model on concrete
  chunks: an LZP that drops a byte repeated at the start, a Delta2 that drops a leading
  9, a run-length codec that only handles a run of one byte, a one-byte additive
  checksum, and a multiplicative hash in the place of CRC32.
\<close>

definition lzp_toy_compress :: "bytes \<Rightarrow> int \<Rightarrow> int \<times> bytes" where
  "lzp_toy_compress x hs =
    (case x of a # b # r \<Rightarrow> if a = b then (int (length x) - 1, b # r) else (- 2, [])
     | _ \<Rightarrow> (- 2, []))"

definition lzp_toy_decompress :: "bytes \<Rightarrow> int \<Rightarrow> int \<times> bytes" where
  "lzp_toy_decompress x hs =
    (case x of [] \<Rightarrow> (- 2, []) | a # r \<Rightarrow> (int (length x) + 1, a # a # r))"

definition delta2_toy_encode :: "bytes \<Rightarrow> nat \<Rightarrow> int \<Rightarrow> int \<times> bytes" where
  "delta2_toy_encode x cap span =
    (case x of [] \<Rightarrow> (- 1, []) | a # r \<Rightarrow> if a = 9 then (0, r) else (- 1, []))"

definition delta2_toy_decode :: "bytes \<Rightarrow> nat \<Rightarrow> int \<times> bytes" where
  "delta2_toy_decode x cap = (0, 9 # x)"

definition rle_compress :: compress_func where
  "rle_compress x cap lvl chdr =
    (if 2 < length x \<and> list_all (\<lambda>b. b = hd x) x then (0, [hd x, of_nat (length x)])
     else (- 1, []))"

definition rle_decompress :: compress_func where
  "rle_decompress x cap lvl chdr =
    (case x of [a, n] \<Rightarrow> (0, replicate (unat n) a) | _ \<Rightarrow> (- 1, []))"

definition toy :: collab where
  "toy = \<lparr> compress = rle_compress, decompress = rle_decompress,
           lzma_compress = rle_compress, lzma_decompress = rle_decompress,
           lzp_hash_size = (\<lambda>l. l),
           lzp_compress = lzp_toy_compress, lzp_decompress = lzp_toy_decompress,
           delta2_encode = delta2_toy_encode, delta2_decode = delta2_toy_decode,
           compute_checksum = (\<lambda>x mt. [foldr (+) x 0]),
           serialize_checksum = rev, deserialize_checksum = rev,
           lzma_crc32 = (\<lambda>x c. foldl (\<lambda>a b. a * 31 + ucast b) c x),
           hmac = (\<lambda>x. [foldr (XOR) x 0]),
           crypto_buf = (\<lambda>x i. (0, map (\<lambda>b. b XOR 90) x)),
           RABIN_HDR_SIZE = 2,
           dedupe_compress = (\<lambda>x. (False, 0, [])),
           dedupe_decompress = (\<lambda>x n. (False, [])),
           parse_dedupe_hdr = (\<lambda>x. (0, 0, 0, 0, 0)),
           update_dedupe_hdr = (\<lambda>x i d. x),
           transpose_buf = (\<lambda>x n d. rev x) \<rparr>"

definition opts_LP :: globals where
  "opts_LP = \<lparr> enable_rabin_scan = False, enable_fixed_scan = False, enable_rabin_global = False,
               enable_delta2_encode = True, lzp_preprocess = True, encrypt_type = 0,
               adapt_mode = False, cksum_bytes = 1, mac_bytes = 4 \<rparr>"

text \<open>
  A worker slot whose chunk \<open>x\<close> was read into \<^verbatim>\<open>uncompressed_chunk\<close> (lines
  2139-2143), for a chunk size \<open>cs\<close>, at level 6 and with a Delta2 span of 50.
\<close>

definition slot_of :: "bytes \<Rightarrow> nat \<Rightarrow> cmp_data" where
  "slot_of x cs =
    \<lparr>cmp_seg = [], compressed_chunk = [], uncompressed_chunk = x, rbytes = length x,
     chunksize = cs, len_cmp = 0, len_cmp_be = [], checksum = [], level = 6, cksum_mt = 0,
     chunk_id = 0, rctx_valid = False, rctx_level = 6, delta2_span = 50\<rparr>"

text \<open>
  The options of a run without dedup, preprocessing or encryption, with a one-byte
  checksum and the 4-byte CRC32 that \<^verbatim>\<open>main\<close> sets up in non-crypto mode (line
  2635).
\<close>

definition opts_plain :: globals where
  "opts_plain =
    \<lparr>enable_rabin_scan = False, enable_fixed_scan = False, enable_rabin_global = False,
     enable_delta2_encode = False, lzp_preprocess = False, encrypt_type = 0,
     adapt_mode = False, cksum_bytes = 1, mac_bytes = 4\<rparr>"

text \<open>
  The options of a crypto run as \<^verbatim>\<open>main\<close> sets them up: no plaintext checksum
  slot (\<^verbatim>\<open>cksum_bytes\<close> is 0), and a mac slot for the one-byte stand-in HMAC.
\<close>

definition opts_crypt :: globals where
  "opts_crypt =
    \<lparr>enable_rabin_scan = False, enable_fixed_scan = False, enable_rabin_global = False,
     enable_delta2_encode = False, lzp_preprocess = False, encrypt_type = 1,
     adapt_mode = False, cksum_bytes = 0, mac_bytes = 1\<rparr>"


text \<open>The options of a crypto run with LZP preprocessing.\<close>

definition opts_Lcrypt :: globals where
  "opts_Lcrypt =
    \<lparr>enable_rabin_scan = False, enable_fixed_scan = False, enable_rabin_global = False,
     enable_delta2_encode = False, lzp_preprocess = True, encrypt_type = 1,
     adapt_mode = False, cksum_bytes = 0, mac_bytes = 1\<rparr>"

section \<open>Buffer lemmas\<close>

lemma length_rd [simp]: "length (rd buf off n) = n"
  by (simp add: rd_def)

lemma length_pad: "length (pad n buf) = max n (length buf)"
  by (simp add: pad_def)

lemma length_blit: "length (blit buf off xs) = max (length buf) (off + length xs)"
  by (simp add: blit_def length_pad)

lemma rd_blit_same [simp]: "rd (blit buf off xs) off (length xs) = xs"
  by (simp add: rd_def blit_def length_pad)

lemma length_htonll [simp]: "length (htonll n) = 8"
  by (simp add: htonll_def)

definition byte_at :: "bytes \<Rightarrow> nat \<Rightarrow> byte" where
  "byte_at b i = (if i < length b then b ! i else 0)"

lemma rd_nth: "i < n \<Longrightarrow> rd b off n ! i = byte_at b (off + i)"
  by (auto simp: rd_def byte_at_def nth_append)

lemma byte_at_blit:
  "byte_at (blit b off xs) i = (if off \<le> i \<and> i < off + length xs then xs ! (i - off) else byte_at b i)"
  by (auto simp: blit_def byte_at_def pad_def nth_append min_def)

lemma rd_eqI: "(\<And>i. i < n \<Longrightarrow> byte_at a (oa + i) = byte_at b (ob + i)) \<Longrightarrow> rd a oa n = rd b ob n"
  by (rule nth_equalityI) (simp_all add: rd_nth)

lemma rd_blit_before: "o' + n \<le> off \<Longrightarrow> rd (blit b off xs) o' n = rd b o' n"
  by (rule rd_eqI) (simp add: byte_at_blit)

lemma rd_blit_after: "off + length xs \<le> o' \<Longrightarrow> rd (blit b off xs) o' n = rd b o' n"
  by (rule rd_eqI) (simp add: byte_at_blit)

lemma rd_blit_inside: "off \<le> o' \<Longrightarrow> o' + n \<le> off + length xs \<Longrightarrow> rd (blit b off xs) o' n = take n (drop (o' - off) xs)"
  by (rule nth_equalityI) (simp_all add: rd_nth byte_at_blit)

lemma rd_split: "rd b off (m + n) = rd b off m @ rd b (off + m) n"
  by (rule nth_equalityI) (auto simp: rd_nth nth_append add.assoc)

lemma rd_Suc: "rd b off (Suc n) = hd (rd b off 1) # rd b (Suc off) n"
  using rd_split[of b off 1 n] by (cases "rd b off 1") (auto dest: arg_cong[where f=length])

lemma digits_step:
  "(a * b + n div b ^ k mod b) * b ^ k + n mod b ^ k = a * b ^ Suc k + n mod b ^ Suc k" for n :: nat
proof -
  have "n mod (b ^ k * b) = b ^ k * (n div b ^ k mod b) + n mod b ^ k"
    by (rule mod_mult2_eq)
  then show ?thesis by (simp add: algebra_simps)
qed

lemma ntohll_htonll: "n < 2 ^ 64 \<Longrightarrow> ntohll (htonll n) = n"
proof -
  assume a: "n < 2 ^ 64"
  define b :: nat where "b = 256"
  define d where "d k = n div b ^ k mod b" for k
  have u: "unat (byte_of n k) = d k" for k by (simp add: unat_of_nat b_def d_def byte_of_def)
  have e: "ntohll (htonll n) = (((((((0 * b + d 7) * b + d 6) * b + d 5) * b + d 4) * b + d 3) * b + d 2) * b + d 1) * b + d 0"
    unfolding ntohll_def htonll_def by (simp add: u b_def)
  have s: "(a * b + d k) * b ^ k + n mod b ^ k = a * b ^ Suc k + n mod b ^ Suc k" for a k
    unfolding d_def by (rule digits_step)
  have s0: "a * b + d 0 = a * b ^ 1 + n mod b ^ 1" for a using s[of a 0] by simp
  have s1: "(a * b + d 1) * b ^ 1 + n mod b ^ 1 = a * b ^ 2 + n mod b ^ 2" for a using s[of a 1] by (simp add: numeral_2_eq_2)
  have s2: "(a * b + d 2) * b ^ 2 + n mod b ^ 2 = a * b ^ 3 + n mod b ^ 3" for a using s[of a 2] by (simp add: numeral_3_eq_3)
  have s3: "(a * b + d 3) * b ^ 3 + n mod b ^ 3 = a * b ^ 4 + n mod b ^ 4" for a using s[of a 3] by (simp add: eval_nat_numeral)
  have s4: "(a * b + d 4) * b ^ 4 + n mod b ^ 4 = a * b ^ 5 + n mod b ^ 5" for a using s[of a 4] by (simp add: eval_nat_numeral)
  have s5: "(a * b + d 5) * b ^ 5 + n mod b ^ 5 = a * b ^ 6 + n mod b ^ 6" for a using s[of a 5] by (simp add: eval_nat_numeral)
  have s6: "(a * b + d 6) * b ^ 6 + n mod b ^ 6 = a * b ^ 7 + n mod b ^ 7" for a using s[of a 6] by (simp add: eval_nat_numeral)
  have s7: "(a * b + d 7) * b ^ 7 + n mod b ^ 7 = a * b ^ 8 + n mod b ^ 8" for a using s[of a 7] by (simp add: eval_nat_numeral)
  have "ntohll (htonll n) = n mod b ^ 8"
    unfolding e s0 s1 s2 s3 s4 s5 s6 s7 by simp
  also have "\<dots> = n" using a by (simp add: b_def)
  finally show ?thesis .
qed

section \<open>Lemmas about the preprocessing stages\<close>

lemma backend_stage_fallback:
  assumes c: "cmp_func (rd src so n) n lvl chdr = (r, out)"
    and f: "\<not> (r > - 1 \<and> length out < n)"
  shows "\<exists>dst'. backend_stage cmp_func lvl chdr so dof (t, n, src, dst)
             = (if t > 0 then 0 else r, src, dst', n + 1)
           \<and> rd dst' dof (n + 1) = t # rd src so n"
proof -
  define d3 where "d3 = blit (blit (blit dst dof [t]) (dof + 1) (htonll n)) (dof + 9) out"
  define dst' where "dst' = blit d3 (dof + 1) (rd src so n)"
  have e: "backend_stage cmp_func lvl chdr so dof (t, n, src, dst)
             = (if t > 0 then 0 else r, src, dst', n + 1)"
    using c f by (auto simp: backend_stage_def Let_def d3_def dst'_def)
  have h: "rd dst' dof 1 = [t]"
    unfolding dst'_def d3_def
    using rd_blit_same[of dst dof "[t]"]
    by (simp add: rd_blit_before)
  have p: "rd dst' (dof + 1) n = rd src so n"
    unfolding dst'_def using rd_blit_same[of d3 "dof + 1" "rd src so n"] by simp
  have "rd dst' dof (1 + n) = rd dst' dof 1 @ rd dst' (dof + 1) n" by (rule rd_split)
  with h p have "rd dst' dof (n + 1) = t # rd src so n" by (simp add: add.commute)
  with e show ?thesis by blast
qed

lemma backend_stage_compressed:
  assumes c: "cmp_func (rd src so n) n lvl chdr = (r, out)"
    and f: "r > - 1" "length out < n"
  shows "\<exists>dst'. backend_stage cmp_func lvl chdr so dof (t, n, src, dst)
             = (r, src, dst', length out + 9)
           \<and> rd dst' dof (length out + 9) = (t OR PREPROC_COMPRESSED) # htonll n @ out"
proof -
  define d1 where "d1 = blit dst dof [t]"
  define d2 where "d2 = blit d1 (dof + 1) (htonll n)"
  define d3 where "d3 = blit d2 (dof + 9) out"
  define dst' where "dst' = blit d3 dof [hd (rd d3 dof 1) OR PREPROC_COMPRESSED]"
  have e: "backend_stage cmp_func lvl chdr so dof (t, n, src, dst) = (r, src, dst', length out + 9)"
    using c f by (auto simp: backend_stage_def Let_def d1_def d2_def d3_def dst'_def)
  have t: "rd d3 dof 1 = [t]"
    unfolding d3_def d2_def d1_def using rd_blit_same[of dst dof "[t]"] by (simp add: rd_blit_before)
  have h: "rd dst' dof 1 = [t OR PREPROC_COMPRESSED]"
    unfolding dst'_def using rd_blit_same[of d3 dof "[hd (rd d3 dof 1) OR PREPROC_COMPRESSED]"] t by simp
  have l: "rd dst' (dof + 1) 8 = htonll n"
    unfolding dst'_def d3_def d2_def using rd_blit_same[of d1 "dof + 1" "htonll n"]
    by (simp add: rd_blit_before rd_blit_after)
  have o: "rd dst' (dof + 9) (length out) = out"
    unfolding dst'_def d3_def by (simp add: rd_blit_after)
  have "rd dst' dof (1 + (8 + length out)) = rd dst' dof 1 @ rd dst' (dof + 1) (8 + length out)"
    by (rule rd_split)
  also have "rd dst' (dof + 1) (8 + length out) = rd dst' (dof + 1) 8 @ rd dst' (dof + 1 + 8) (length out)"
    by (rule rd_split)
  finally have "rd dst' dof (length out + 9) = (t OR PREPROC_COMPRESSED) # htonll n @ out"
    using h l o by (simp add: add.commute add.left_commute)
  with e show ?thesis by blast
qed

lemma lzp_stage_type:
  "lzp_stage g E src so srclen dst dof dstlen lvl = Inr (t0, n0, src0, dst0) \<Longrightarrow> t0 = 0 \<or> t0 = 1"
  by (auto simp: lzp_stage_def Let_def PREPROC_TYPE_LZP_def split: if_splits prod.splits)

lemma delta2_stage_type:
  "delta2_stage g E span so dof (t0, n0, src0, dst0) = (t1, n1, src1, dst1) \<Longrightarrow>
     t1 = t0 \<or> t1 = t0 OR 2"
  by (auto simp: delta2_stage_def Let_def PREPROC_TYPE_DELTA2_def split: if_splits prod.splits)

lemma lzp_stage_Inr:
  assumes "lzp_stage g E src so srclen dst dof dstlen lvl = Inr (t0, n0, src0, dst0)"
  shows "(lzp_applied g E (rd src so srclen) lvl \<and> t0 = PREPROC_TYPE_LZP)
       \<or> (\<not> lzp_applied g E (rd src so srclen) lvl \<and> t0 = 0 \<and> n0 = srclen \<and> src0 = src)"
  using assms
  by (auto simp: lzp_stage_def lzp_applied_def Let_def split: if_splits prod.splits)

lemma delta2_stage_cases:
  assumes "delta2_stage g E span so dof (t0, n0, src0, dst0) = (t1, n1, src1, dst1)"
  shows "(delta2_applied g E (rd src0 so n0) span \<and> t1 = t0 OR PREPROC_TYPE_DELTA2
           \<and> rd src1 so n1 = snd (delta2_encode E (rd src0 so n0) n0 span)
           \<and> n1 = length (snd (delta2_encode E (rd src0 so n0) n0 span)))
       \<or> (\<not> delta2_applied g E (rd src0 so n0) span \<and> t1 = t0 \<and> n1 = n0 \<and> src1 = src0)"
  using assms
  by (auto simp: delta2_stage_def delta2_applied_def Let_def split: if_splits prod.splits)

lemma u64_sub_simp: "b \<le> a \<Longrightarrow> a < 2 ^ 64 \<Longrightarrow> u64_sub a b = a - b"
proof -
  assume a: "b \<le> a" "a < 2 ^ 64"
  define M :: nat where "M = 2 ^ 64"
  have u: "u64_sub a b = (a + M - b) mod M" unfolding u64_sub_def M_def ..
  from a have "a + M - b = (a - b) + M" by simp
  then have "u64_sub a b = (a - b) mod M" unfolding u by (simp only: mod_add_self2)
  moreover have "a - b < M" using a unfolding M_def by linarith
  ultimately show ?thesis by (simp only: mod_less)
qed

lemma u64_sub_one: "n < 2 ^ 64 \<Longrightarrow> u64_sub (n + 1) 1 = n"
proof -
  assume n: "n < 2 ^ 64"
  define M :: nat where "M = 2 ^ 64"
  have "u64_sub (n + 1) 1 = (n + 1 + M - 1) mod M" unfolding u64_sub_def M_def ..
  also have "n + 1 + M - 1 = n + M" by simp
  also have "(n + M) mod M = n mod M" by (simp only: mod_add_self2)
  also have "n mod M = n" using n unfolding M_def by (simp only: mod_less)
  finally show ?thesis .
qed

lemma rd_blit_len: "length xs = n \<Longrightarrow> rd (blit b off xs) off n = xs"
  by auto

lemma rd_ConsD:
  assumes "rd b off (n + 1) = t # D"
  shows "rd b off 1 = [t] \<and> rd b (off + 1) n = D"
proof -
  have "rd b off (1 + n) = rd b off 1 @ rd b (off + 1) n" by (rule rd_split)
  with assms have a: "rd b off 1 @ rd b (off + 1) n = t # D" by (simp add: add.commute)
  from length_rd[of b off 1] obtain x where "rd b off 1 = [x]"
    by (metis One_nat_def length_0_conv length_Suc_conv)
  with a show ?thesis by auto
qed

lemma unwrap_backend_plain:
  assumes p: "rd cb co (n + 1) = t # D" and t: "t AND PREPROC_COMPRESSED = 0" and n: "n < 2 ^ 64"
  shows "unwrap_backend dec_func cb co (n + 1) ub uo cap lvl chdr = Inr (cb, co + 1, n, ub, cap)
         \<and> hd (rd cb co 1) = t \<and> rd cb (co + 1) n = D"
proof -
  from rd_ConsD[OF p] have h: "rd cb co 1 = [t]" and d: "rd cb (co + 1) n = D" by auto
  have "u64_sub (n + 1) 1 = n" using n by (rule u64_sub_one)
  then show ?thesis using h d t by (simp add: unwrap_backend_def Let_def)
qed

lemma stage_type_low:
  assumes lz: "lzp_stage g E src so srclen dst dof dstlen lvl = Inr st0"
    and d2: "delta2_stage g E span so dof st0 = (t1, n1, src1, dst1)"
  shows "t1 AND PREPROC_COMPRESSED = 0"
proof -
  obtain t0 n0 src0 dst0 where st0: "st0 = (t0, n0, src0, dst0)" by (cases st0) auto
  from lzp_stage_Inr[OF lz[unfolded st0]] have "t0 = 0 \<or> t0 = PREPROC_TYPE_LZP" by auto
  moreover from delta2_stage_cases[OF d2[unfolded st0]] have "t1 = t0 \<or> t1 = t0 OR PREPROC_TYPE_DELTA2" by auto
  ultimately show ?thesis
    by (auto simp: PREPROC_TYPE_LZP_def PREPROC_TYPE_DELTA2_def PREPROC_COMPRESSED_def)
qed

lemma unwrap_backend_compressed:
  assumes p: "rd cb co (length out + 9) = t # htonll n @ out"
    and t: "t AND PREPROC_COMPRESSED \<noteq> 0" and n: "n < 2 ^ 64" and l: "length out + 9 < 2 ^ 64"
  shows "unwrap_backend dec_func cb co (length out + 9) ub uo cap lvl chdr =
         (case dec_func out n lvl chdr of (result, o2) \<Rightarrow>
            if result < 0 then Inl (result, cb, blit ub uo o2, length o2)
            else Inr (blit cb co o2, co, length o2, blit ub uo o2, length o2))"
proof -
  have p': "rd cb co ((length out + 8) + 1) = t # (htonll n @ out)" using p by (simp add: add.commute)
  from rd_ConsD[OF p'] have h: "rd cb co 1 = [t]" and r: "rd cb (co + 1) (length out + 8) = htonll n @ out" by auto
  have "rd cb (co + 1) (8 + length out) = rd cb (co + 1) 8 @ rd cb (co + 1 + 8) (length out)" by (rule rd_split)
  with r have "rd cb (co + 1) 8 @ rd cb (co + 9) (length out) = htonll n @ out" by (simp add: add.commute)
  then have l8: "rd cb (co + 1) 8 = htonll n" and o: "rd cb (co + 9) (length out) = out" by auto
  have u1: "u64_sub (length out + 9) 1 = length out + 8" using u64_sub_simp[of 1 "length out + 9"] l by simp
  have u2: "u64_sub (length out + 8) 8 = length out" using u64_sub_simp[of 8 "length out + 8"] l by simp
  show ?thesis
    unfolding unwrap_backend_def Let_def h u1 u2 l8 o ntohll_htonll[OF n]
    using t by (simp add: rd_blit_len split: prod.splits)
qed

lemma toy_sel:
  "compress toy = rle_compress" "decompress toy = rle_decompress"
  "lzma_compress toy = rle_compress" "lzma_decompress toy = rle_decompress"
  "lzp_hash_size toy = (\<lambda>l. l)"
  "lzp_compress toy = lzp_toy_compress" "lzp_decompress toy = lzp_toy_decompress"
  "delta2_encode toy = delta2_toy_encode" "delta2_decode toy = delta2_toy_decode"
  "compute_checksum toy = (\<lambda>x mt. [foldr (+) x 0])"
  "serialize_checksum toy = rev" "deserialize_checksum toy = rev"
  "lzma_crc32 toy = (\<lambda>x c. foldl (\<lambda>a b. a * 31 + ucast b) c x)"
  "RABIN_HDR_SIZE toy = 2"
  by (simp_all add: toy_def)

lemma opts_LP_sel:
  "enable_rabin_scan opts_LP = False" "enable_fixed_scan opts_LP = False"
  "enable_rabin_global opts_LP = False" "enable_delta2_encode opts_LP = True"
  "lzp_preprocess opts_LP = True" "encrypt_type opts_LP = 0" "adapt_mode opts_LP = False"
  "cksum_bytes opts_LP = 1" "mac_bytes opts_LP = 4"
  by (simp_all add: opts_LP_def)

lemmas buf_eval = rd_def blit_def pad_def
lemmas toy_eval = toy_sel opts_LP_sel lzp_toy_compress_def lzp_toy_decompress_def
  delta2_toy_encode_def delta2_toy_decode_def rle_compress_def rle_decompress_def

lemma t1: "lzp_stage opts_LP toy [9, 9, 5, 6] 0 4 [] 0 4 6 = Inr (1, 3, [9, 5, 6, 6], [9, 5, 6])"
  by (simp add: lzp_stage_def buf_eval toy_eval PREPROC_TYPE_LZP_def)

lemma t2: "delta2_stage opts_LP toy 50 0 0 (1, 3, [9, 5, 6, 6], [9, 5, 6]) = (3, 2, [5, 6, 6, 6], [5, 6, 6])"
  by (simp add: delta2_stage_def buf_eval toy_eval PREPROC_TYPE_DELTA2_def)

section \<open>Signed 16-bit values\<close>

lemma sint16_small: "uint (w :: 16 word) < 32768 \<Longrightarrow> sint w = uint w"
proof -
  assume a: "uint w < 32768"
  have z: "0 \<le> uint w" by simp
  have "signed_take_bit 15 (uint w) = uint w"
  proof (rule signed_take_bit_int_eq_self)
    show "- (2 ^ 15) \<le> uint w" by (rule order_trans[OF _ z]) simp
    show "uint w < 2 ^ 15" using a by simp
  qed
  moreover have "sint w = signed_take_bit 15 (uint w)" by (simp add: sint_uint)
  ultimately show ?thesis by (simp only:)
qed

lemma sint16_big: "32768 \<le> uint (w :: 16 word) \<Longrightarrow> sint w < 0"
proof -
  assume a: "32768 \<le> uint w"
  have "signed_take_bit 15 (uint w) \<le> uint w - 2 ^ Suc 15"
    by (rule signed_take_bit_int_less_eq) (use a in simp)
  then have "signed_take_bit 15 (uint w) \<le> uint w - 65536" by simp
  moreover have "uint w < 65536" using uint_bounded[of w] by simp
  moreover have "sint w = signed_take_bit 15 (uint w)" by (simp add: sint_uint)
  ultimately show ?thesis by linarith
qed

section \<open>Bits of the chunk flags\<close>

lemma bit_int_1: "bit (1::int) n \<longleftrightarrow> n = 0"
  by (simp add: bit_1_iff)

lemma bit_int_2: "bit (2::int) n \<longleftrightarrow> n = 1"
  using bit_exp_iff[where ?'a=int, of 1 n] by simp

lemma bit_int_4: "bit (4::int) n \<longleftrightarrow> n = 2"
  using bit_exp_iff[where ?'a=int, of 2 n] by simp

lemma bit_int_128: "bit (128::int) n \<longleftrightarrow> n = 7"
  using bit_exp_iff[where ?'a=int, of 7 n] by simp

lemma bit_small_int: "0 \<le> rv \<Longrightarrow> rv < 8 \<Longrightarrow> bit rv k \<Longrightarrow> k < 3" for rv :: int
proof (rule ccontr)
  assume a: "0 \<le> rv" "rv < 8" "bit rv k" "\<not> k < 3"
  then have "3 \<le> k" by simp
  then have "(2::int) ^ 3 \<le> 2 ^ k" by (rule power_increasing) simp
  with a have "rv < 2 ^ k" by simp
  with a have "rv div 2 ^ k = 0" by simp
  with a show False by (simp add: bit_iff_odd)
qed

lemma chunk_type_bits:
  assumes "adapt_mode g \<Longrightarrow> 0 \<le> rv \<and> rv < 8"
  shows "bit (chunk_type g v fb rv short) n \<longleftrightarrow>
     (n = 0 \<and> \<not> fb) \<or> (n = 1 \<and> dedup_on g \<and> v) \<or> (n = 2 \<and> preproc_on g)
     \<or> (adapt_mode g \<and> 4 \<le> n \<and> n < 7 \<and> bit rv (n - 4)) \<or> (n = 7 \<and> short)"
proof -
  have r: "adapt_mode g \<Longrightarrow> bit rv k \<Longrightarrow> k < 3" for k
    using assms bit_small_int[of rv k] by simp
  show ?thesis
    using r[of "n - 4"]
    by (auto simp: chunk_type_def Let_def UNCOMPRESSED_def COMPRESSED_def CHUNK_FLAG_DEDUP_def
        CHUNK_FLAG_PREPROC_def CHSIZE_MASK_def bit_or_iff bit_push_bit_iff bit_int_1 bit_int_2
        bit_int_4 bit_int_128)
qed

lemma and_128_bit7: "(x AND 128 \<noteq> 0) = bit x 7" for x :: int
proof
  assume "x AND 128 \<noteq> 0"
  show "bit x 7"
  proof (rule ccontr)
    assume n: "\<not> bit x 7"
    have "x AND 128 = 0"
      by (rule bit_eqI) (use n in \<open>auto simp: bit_and_iff bit_int_128\<close>)
    with \<open>x AND 128 \<noteq> 0\<close> show False by simp
  qed
next
  assume "bit x 7"
  then have "bit (x AND 128) 7" by (simp add: bit_and_iff bit_int_128)
  then show "x AND 128 \<noteq> 0" by auto
qed

lemma chunk_type_chsize:
  assumes "adapt_mode g \<Longrightarrow> 0 \<le> rv \<and> rv < 8"
  shows "(chunk_type g v fb rv short AND CHSIZE_MASK \<noteq> 0) = short"
  unfolding CHSIZE_MASK_def and_128_bit7 by (simp add: chunk_type_bits[OF assms])

section \<open>The frame written in non-crypto mode\<close>

lemma ntohl_htonl: "ntohl (htonl w) = w"
proof (rule bit_eqI)
  fix n
  assume "possible_bit TYPE(32 word) n"
  then have n: "n < 32" by (simp add: possible_bit_word)
  have e: "ntohl (htonl w) =
      push_bit 8 (push_bit 8 (push_bit 8 (ucast (ucast (drop_bit 24 w) :: byte))
                               OR ucast (ucast (drop_bit 16 w) :: byte))
                  OR ucast (ucast (drop_bit 8 w) :: byte))
      OR ucast (ucast w :: byte)"
    by (simp add: ntohl_def htonl_def)
  consider "n < 8" | "8 \<le> n" "n < 16" | "16 \<le> n" "n < 24" | "24 \<le> n" using n by linarith
  then show "bit (ntohl (htonl w)) n = bit w n"
    unfolding e using n
    by cases (auto simp: bit_or_iff bit_push_bit_iff bit_ucast_iff bit_drop_bit_eq)
qed

lemma length_htonl [simp]: "length (htonl w) = 4"
  by (simp add: htonl_def)

lemmas rd_blit_simps = rd_blit_before rd_blit_after rd_blit_len

lemma rd_zero [simp]: "rd b off 0 = []"
  by (simp add: rd_def)

lemma rd_split3: "rd b off (k + m + n) = rd b off k @ rd b (off + k) m @ rd b (off + k + m) n"
  by (simp add: rd_split add.assoc)

lemma frame_chunk_plain:
  assumes nc: "encrypt_type g = 0" and m: "mac_bytes g = 4"
    and ad: "adapt_mode g \<Longrightarrow> rv0 < 8"
  shows "\<exists>seg. frame_chunk g E t rbytes0 rv0 csz
            = Inr (t\<lparr>cmp_seg := seg,
                     len_cmp := 13 + cksum_bytes g + payload_len t rbytes0 rv0 csz + length (trailer_of t)\<rparr>)
         \<and> rd seg 0 (13 + cksum_bytes g + payload_len t rbytes0 rv0 csz + length (trailer_of t))
           = htonll (len_field t rbytes0 rv0 csz) @ cksum_slot g E t
             @ htonl (chunk_crc g E t rbytes0 rv0 csz) @ [flag_of g t rbytes0 rv0 csz]
             @ payload_of g t rbytes0 rv0 csz @ trailer_of t"
proof -
  define c where "c = cksum_bytes g"
  define fb where "fb = fallback_of rbytes0 rv0 csz"
  define L where "L = payload_len t rbytes0 rv0 csz"
  define S where "S = cksum_slot g E t"
  define flag where "flag = flag_of g t rbytes0 rv0 csz"
  define short where "short = (rbytes t < chunksize t)"
  define seg1 where "seg1 = (if fb \<and> (\<not> dedup_on g \<or> \<not> rctx_valid t)
                 then blit (cmp_seg t) (13 + c) (rd (uncompressed_chunk t) 0 (rbytes t))
                 else cmp_seg t)"
  define seg4 where "seg4 = blit (blit seg1 0 (htonll L)) 8 S"
  define seg5 where "seg5 = (if short
                        then blit (blit seg4 (13 + c + L) (htonll (rbytes t))) 0 (htonll (L + 8))
                        else seg4)"
  define seg7 where "seg7 = blit (blit seg5 (12 + c) [flag]) (8 + c) (replicate 4 0)"
  define LF where "LF = len_field t rbytes0 rv0 csz"
  define crc where "crc = chunk_crc g E t rbytes0 rv0 csz"
  define T where "T = trailer_of t"
  have lS: "length S = c" by (simp add: S_def cksum_slot_def c_def)
  have L_fb: "fb \<Longrightarrow> L = rbytes t" by (simp add: L_def payload_len_def fb_def)
  have pay: "rd seg1 (13 + c) L = payload_of g t rbytes0 rv0 csz"
    using L_fb
    by (auto simp: seg1_def payload_of_def fb_def[symmetric] L_def[symmetric] hdr_off_def m c_def
        COMPRESSED_CHUNKSZ_def CHUNK_FLAG_SZ_def rd_blit_len add_ac)
  have LF: "LF = (if short then L + 8 else L)"
    by (simp add: LF_def len_field_def short_def L_def ORIGINAL_CHUNKSZ_def)
  have Tdef: "T = (if short then htonll (rbytes t) else [])"
    by (simp add: T_def trailer_of_def short_def)
  have r_len: "rd seg7 0 8 = htonll LF"
    by (simp add: seg7_def seg5_def seg4_def LF rd_blit_simps lS)
  have r_ck: "rd seg7 8 c = S"
    by (simp add: seg7_def seg5_def seg4_def rd_blit_simps lS)
  have r_mac: "rd seg7 (8 + c) 4 = replicate 4 0"
    by (simp add: seg7_def rd_blit_simps)
  have r_flag: "rd seg7 (12 + c) 1 = [flag]"
    by (simp add: seg7_def rd_blit_simps)
  have r_pay: "rd seg7 (13 + c) L = rd seg1 (13 + c) L"
    by (simp add: seg7_def seg5_def seg4_def rd_blit_simps lS)
  have r_tr: "rd seg7 (13 + c + L) (length T) = T"
    by (cases short) (simp_all add: seg7_def seg5_def Tdef rd_blit_simps)
  have r_tr8: "short \<Longrightarrow> rd seg7 (13 + c + L) 8 = htonll (rbytes t)"
    by (simp add: seg7_def seg5_def rd_blit_simps)
  have hdr: "rd seg7 0 (13 + c) = htonll LF @ S @ replicate 4 0 @ [flag]"
  proof -
    have "rd seg7 0 (8 + c + (4 + 1)) = rd seg7 0 8 @ rd seg7 (0 + 8) c @ rd seg7 (0 + 8 + c) (4 + 1)"
      by (rule rd_split3)
    also have "rd seg7 (0 + 8 + c) (4 + 1) = rd seg7 (8 + c) 4 @ rd seg7 (8 + c + 4) 1"
      by (simp only: rd_split add_0)
    finally show ?thesis using r_len r_ck r_mac r_flag by (simp add: add_ac)
  qed
  have crc_eq: "crc = (let k = lzma_crc32 E (rd seg7 0 (13 + c)) 0
                       in if short then lzma_crc32 E (rd seg7 (13 + c + L) 8) k else k)"
    using r_tr8
    by (simp add: crc_def chunk_crc_def hdr LF_def S_def flag_def m short_def Let_def)
  define seg8 where "seg8 = blit seg7 (8 + c) (htonl crc)"
  have fc: "frame_chunk g E t rbytes0 rv0 csz
            = Inr (t\<lparr>cmp_seg := seg8, len_cmp := 13 + c + L + length T\<rparr>)"
    unfolding seg8_def crc_eq
    using ad
    by (simp add: frame_chunk_def authenticate_def Let_def nc m seg7_def seg5_def seg4_def seg1_def
        Tdef short_def L_def payload_len_def fb_def fallback_of_def S_def cksum_slot_def flag_def flag_of_def
        hdr_off_def COMPRESSED_CHUNKSZ_def CHUNK_FLAG_SZ_def ORIGINAL_CHUNKSZ_def c_def
        chunk_type_chsize COMPRESS_NONE_def add_ac)
  have s_len: "rd seg8 0 8 = htonll LF" unfolding seg8_def using r_len by (simp add: rd_blit_simps)
  have s_ck: "rd seg8 8 c = S" unfolding seg8_def using r_ck by (simp add: rd_blit_simps)
  have s_mac: "rd seg8 (8 + c) 4 = htonl crc" unfolding seg8_def by (simp add: rd_blit_simps)
  have s_flag: "rd seg8 (12 + c) 1 = [flag]" unfolding seg8_def using r_flag by (simp add: rd_blit_simps)
  have s_pay: "rd seg8 (13 + c) L = payload_of g t rbytes0 rv0 csz"
    unfolding seg8_def using r_pay pay by (simp add: rd_blit_simps)
  have s_tr: "rd seg8 (13 + c + L) (length T) = T" unfolding seg8_def using r_tr by (simp add: rd_blit_simps)
  have "rd seg8 0 (8 + c + (4 + 1 + (L + length T)))
       = rd seg8 0 8 @ rd seg8 (0 + 8) c @ rd seg8 (0 + 8 + c) (4 + 1 + (L + length T))"
    by (rule rd_split3)
  also have "rd seg8 (0 + 8 + c) (4 + 1 + (L + length T))
       = rd seg8 (8 + c) 4 @ rd seg8 (8 + c + 4) 1 @ rd seg8 (8 + c + 4 + 1) (L + length T)"
    by (simp only: rd_split3 add_0)
  also have "rd seg8 (8 + c + 4 + 1) (L + length T)
       = rd seg8 (8 + c + 4 + 1) L @ rd seg8 (8 + c + 4 + 1 + L) (length T)"
    by (rule rd_split)
  finally have "rd seg8 0 (13 + c + L + length T)
       = htonll LF @ S @ htonl crc @ [flag] @ payload_of g t rbytes0 rv0 csz @ T"
    using s_len s_ck s_mac s_flag s_pay s_tr by (simp add: add_ac)
  with fc show ?thesis
    unfolding c_def L_def T_def LF_def S_def crc_def flag_def by blast
qed

section \<open>Reading and verifying a frame\<close>

lemma byte_and_128: "(uint b AND CHSIZE_MASK \<noteq> 0) = bit b 7" for b :: byte
  unfolding CHSIZE_MASK_def and_128_bit7 by (simp add: bit_uint_iff)

lemma and_int_1: "(x AND 1 \<noteq> 0) = bit x 0" for x :: int
  by (simp add: and_one_eq bit_0 mod_2_eq_odd)

lemma byte_and_1: "(uint b AND COMPRESSED \<noteq> 0) = bit b 0" for b :: byte
  unfolding COMPRESSED_def and_int_1 by (simp add: bit_uint_iff)

lemma and_int_2: "(x AND 2 \<noteq> 0) = bit x 1" for x :: int
proof
  assume a: "x AND 2 \<noteq> 0"
  show "bit x 1"
  proof (rule ccontr)
    assume n: "\<not> bit x 1"
    have "x AND 2 = 0" by (rule bit_eqI) (use n in \<open>auto simp: bit_and_iff bit_int_2\<close>)
    with a show False by simp
  qed
next
  assume "bit x 1"
  then have "bit (x AND 2) 1" by (simp add: bit_and_iff bit_int_2)
  then show "x AND 2 \<noteq> 0" by auto
qed

lemma byte_and_2: "(uint b AND CHUNK_FLAG_DEDUP \<noteq> 0) = bit b 1" for b :: byte
  unfolding CHUNK_FLAG_DEDUP_def and_int_2 by (simp add: bit_uint_iff)

lemma and_int_4: "(x AND 4 \<noteq> 0) = bit x 2" for x :: int
proof
  assume a: "x AND 4 \<noteq> 0"
  show "bit x 2"
  proof (rule ccontr)
    assume n: "\<not> bit x 2"
    have "x AND 4 = 0" by (rule bit_eqI) (use n in \<open>auto simp: bit_and_iff bit_int_4\<close>)
    with a show False by simp
  qed
next
  assume "bit x 2"
  then have "bit (x AND 4) 2" by (simp add: bit_and_iff bit_int_4)
  then show "x AND 4 \<noteq> 0" by auto
qed

lemma byte_and_4: "(uint b AND CHUNK_FLAG_PREPROC \<noteq> 0) = bit b 2" for b :: byte
  unfolding CHUNK_FLAG_PREPROC_def and_int_4 by (simp add: bit_uint_iff)

lemma flag_of_bits:
  assumes "adapt_mode g \<Longrightarrow> rv0 < 8"
  shows "bit (flag_of g t rbytes0 rv0 csz) n \<longleftrightarrow>
     (n = 0 \<and> \<not> fallback_of rbytes0 rv0 csz) \<or> (n = 1 \<and> dedup_on g \<and> rctx_valid t)
     \<or> (n = 2 \<and> preproc_on g)
     \<or> (adapt_mode g \<and> 4 \<le> n \<and> n < 7 \<and> 0 \<le> rv0 \<and> bit rv0 (n - 4))
     \<or> (n = 7 \<and> rbytes t < chunksize t)"
proof -
  let ?rv = "if fallback_of rbytes0 rv0 csz \<and> rv0 < 0 then COMPRESS_NONE else rv0"
  have r: "adapt_mode g \<Longrightarrow> 0 \<le> ?rv \<and> ?rv < 8"
    using assms by (auto simp: COMPRESS_NONE_def fallback_of_def)
  have ct: "bit (chunk_type g (rctx_valid t) (fallback_of rbytes0 rv0 csz) ?rv (rbytes t < chunksize t)) n \<longleftrightarrow>
     (n = 0 \<and> \<not> fallback_of rbytes0 rv0 csz) \<or> (n = 1 \<and> dedup_on g \<and> rctx_valid t)
     \<or> (n = 2 \<and> preproc_on g)
     \<or> (adapt_mode g \<and> 4 \<le> n \<and> n < 7 \<and> bit ?rv (n - 4)) \<or> (n = 7 \<and> rbytes t < chunksize t)"
    by (rule chunk_type_bits[OF r])
  have rvb: "bit ?rv (n - 4) \<longleftrightarrow> 0 \<le> rv0 \<and> bit rv0 (n - 4)"
    by (auto simp: COMPRESS_NONE_def fallback_of_def)
  have "bit (flag_of g t rbytes0 rv0 csz) n \<longleftrightarrow>
      n < 8 \<and> bit (chunk_type g (rctx_valid t) (fallback_of rbytes0 rv0 csz) ?rv (rbytes t < chunksize t)) n"
    by (simp add: flag_of_def bit_of_int_iff)
  also have "\<dots> \<longleftrightarrow> (n = 0 \<and> \<not> fallback_of rbytes0 rv0 csz) \<or> (n = 1 \<and> dedup_on g \<and> rctx_valid t)
     \<or> (n = 2 \<and> preproc_on g)
     \<or> (adapt_mode g \<and> 4 \<le> n \<and> n < 7 \<and> 0 \<le> rv0 \<and> bit rv0 (n - 4))
     \<or> (n = 7 \<and> rbytes t < chunksize t)"
    unfolding ct rvb by auto
  finally show ?thesis .
qed


lemma rd_append_eq:
  assumes "rd b off (length xs + n) = xs @ ys"
  shows "rd b off (length xs) = xs \<and> rd b (off + length xs) n = ys"
proof -
  have "rd b off (length xs + n) = rd b off (length xs) @ rd b (off + length xs) n" by (rule rd_split)
  with assms show ?thesis by simp
qed

lemma loaded_regions:
  assumes body: "rd cb 0 (c + 5 + L + length T) = S @ M @ [flag] @ P @ T"
    and lens: "length S = c" "length M = 4" "length P = L"
  shows "rd cb 0 c = S" "rd cb c 4 = M" "rd cb (c + 4) 1 = [flag]" "rd cb (c + 5) L = P"
    "rd cb (c + 5 + L) (length T) = T"
proof -
  have "rd cb 0 (length S + (5 + L + length T)) = S @ (M @ [flag] @ P @ T)"
    using body lens by (simp add: add.assoc)
  from rd_append_eq[OF this] have s: "rd cb 0 c = S"
    and r1: "rd cb c (5 + L + length T) = M @ [flag] @ P @ T" using lens by simp_all
  have "rd cb c (length M + (1 + L + length T)) = M @ ([flag] @ P @ T)" using r1 lens by (simp add: add.assoc)
  from rd_append_eq[OF this] have mm: "rd cb c 4 = M"
    and r2: "rd cb (c + 4) (1 + L + length T) = [flag] @ P @ T" using lens by simp_all
  have "rd cb (c + 4) (length [flag] + (L + length T)) = [flag] @ (P @ T)" using r2 by (simp add: add.assoc)
  from rd_append_eq[OF this] have f: "rd cb (c + 4) 1 = [flag]"
    and r3: "rd cb (c + 4 + 1) (L + length T) = P @ T" by simp_all
  have "rd cb (c + 5) (length P + length T) = P @ T" using r3 lens by (simp add: ac_simps)
  from rd_append_eq[OF this] have p: "rd cb (c + 5) L = P" and t: "rd cb (c + 5 + L) (length T) = T"
    using lens by simp_all
  show "rd cb 0 c = S" "rd cb c 4 = M" "rd cb (c + 4) 1 = [flag]" "rd cb (c + 5) L = P"
    "rd cb (c + 5 + L) (length T) = T" by (fact s mm f p t)+
qed

lemma read_flags_loaded:
  assumes ld: "loaded g d S M flag P T" and m: "mac_bytes g = 4"
  shows "read_flags g d =
           (flag, d\<lparr>rbytes := cksum_bytes g + 5 + length P, len_cmp := length P\<rparr>,
            if bit flag 7 then ntohll T else chunksize d)"
proof -
  let ?c = "cksum_bytes g"
  from ld have body: "rd (compressed_chunk d) 0 (?c + 5 + length P + length T) = S @ M @ [flag] @ P @ T"
    and lens: "length S = ?c" "length M = 4" "length P = length P"
    and rb: "rbytes d = ?c + 5 + length P + length T" and lc: "len_cmp d = length P + length T"
    and sz: "rbytes d < 2 ^ 64" and T: "if bit flag 7 then length T = 8 else T = []"
    by (simp_all add: loaded_def)
  note R = loaded_regions[OF body lens]
  have h: "hd (rd (compressed_chunk d) (?c + mac_bytes g) 1) = flag" using R(3) m by simp
  show ?thesis
  proof (cases "bit flag 7")
    case True
    with T have lt: "length T = 8" by simp
    have u1: "u64_sub (rbytes d) ORIGINAL_CHUNKSZ = ?c + 5 + length P"
      using u64_sub_simp[of 8 "rbytes d"] rb lt sz by (simp add: ORIGINAL_CHUNKSZ_def)
    have "len_cmp d < 2 ^ 64" using rb lc sz by simp
    then have u2: "u64_sub (len_cmp d) ORIGINAL_CHUNKSZ = length P"
      using u64_sub_simp[of 8 "len_cmp d"] lc lt by (simp add: ORIGINAL_CHUNKSZ_def)
    have tr: "rd (compressed_chunk d) (?c + 5 + length P) 8 = T" using R(5) lt by simp
    show ?thesis
      unfolding read_flags_def Let_def h byte_and_128 u1 u2
      using True tr by simp
  next
    case False
    with T have "T = []" by simp
    then have "d\<lparr>rbytes := ?c + 5 + length P, len_cmp := length P\<rparr> = d" using rb lc by simp
    then show ?thesis
      unfolding read_flags_def Let_def h byte_and_128 using False by simp
  qed
qed

lemma verify_chunk_loaded:
  assumes ld: "loaded g d S M flag P T" and m: "mac_bytes g = 4" and nc: "encrypt_type g = 0"
    and chain: "crc_chains E"
  shows "\<exists>cb1. verify_chunk g E flag (d\<lparr>rbytes := cksum_bytes g + 5 + length P, len_cmp := length P\<rparr>)
          = (if ntohl M \<noteq> expected_crc E (len_cmp_be d) S flag T then Inl CrcFail
             else Inr (d\<lparr>rbytes := cksum_bytes g + 5 + length P, len_cmp := length P,
                          compressed_chunk := cb1, checksum := deserialize_checksum E S\<rparr>))
        \<and> rd cb1 (cksum_bytes g + 5) (length P) = P"
proof -
  let ?c = "cksum_bytes g"
  let ?cc = "compressed_chunk d"
  from ld have body: "rd ?cc 0 (?c + 5 + length P + length T) = S @ M @ [flag] @ P @ T"
    and lens: "length S = ?c" "length M = 4" "length P = length P"
    and T: "if bit flag 7 then length T = 8 else T = []"
    by (simp_all add: loaded_def)
  note R = loaded_regions[OF body lens]
  define cb1 where "cb1 = blit ?cc ?c (replicate 4 0)"
  have c1: "rd cb1 0 ?c = S" unfolding cb1_def using R(1) by (simp add: rd_blit_simps)
  have c2: "rd cb1 ?c 4 = replicate 4 0" unfolding cb1_def by (simp add: rd_blit_simps)
  have c3: "rd cb1 (?c + 4) 1 = [flag]" unfolding cb1_def using R(3) by (simp add: rd_blit_simps)
  have c4: "rd cb1 (?c + 5) (length P) = P" unfolding cb1_def using R(4) by (simp add: rd_blit_simps)
  have c5: "rd cb1 (?c + 5 + length P) (length T) = T" unfolding cb1_def using R(5) by (simp add: rd_blit_simps)
  have "rd cb1 0 (?c + 4 + 1) = rd cb1 0 ?c @ rd cb1 (0 + ?c) 4 @ rd cb1 (0 + ?c + 4) 1" by (rule rd_split3)
  then have hdr: "rd cb1 0 (?c + 4 + 1) = S @ replicate 4 0 @ [flag]" using c1 c2 c3 by simp
  have k: "lzma_crc32 E (S @ replicate 4 0 @ [flag]) (lzma_crc32 E (len_cmp_be d) 0)
         = lzma_crc32 E (len_cmp_be d @ S @ replicate 4 0 @ [flag]) 0"
    using chain unfolding crc_chains_def by simp
  define d1 where "d1 = d\<lparr>rbytes := ?c + 5 + length P, len_cmp := length P\<rparr>"
  have sel: "compressed_chunk d1 = ?cc" "rbytes d1 = ?c + 5 + length P" "len_cmp_be d1 = len_cmp_be d"
    by (simp_all add: d1_def)
  have tr: "bit flag 7 \<Longrightarrow> rd cb1 (?c + 5 + length P) 8 = T" using c5 T by simp
  have "verify_chunk g E flag d1
          = (if ntohl M \<noteq> expected_crc E (len_cmp_be d) S flag T then Inl CrcFail
             else Inr (d1\<lparr>compressed_chunk := cb1, checksum := deserialize_checksum E S\<rparr>))"
    unfolding verify_chunk_def Let_def nc m CHUNK_FLAG_SZ_def ORIGINAL_CHUNKSZ_def byte_and_128 sel
      cb1_def[symmetric] hdr k R(2) c1 expected_crc_def
    using tr by (cases "bit flag 7") simp_all
  then have "verify_chunk g E flag (d\<lparr>rbytes := ?c + 5 + length P, len_cmp := length P\<rparr>)
          = (if ntohl M \<noteq> expected_crc E (len_cmp_be d) S flag T then Inl CrcFail
             else Inr (d\<lparr>rbytes := ?c + 5 + length P, len_cmp := length P,
                          compressed_chunk := cb1, checksum := deserialize_checksum E S\<rparr>))"
    unfolding d1_def by simp
  with c4 show ?thesis by blast
qed


lemma read_chunk_frame:
  assumes m: "mac_bytes g = 4"
    and lens: "length S = cksum_bytes g" "length M = 4"
    and n: "n = length P + length T" and n0: "0 < n" and nle: "n \<le> csize + 256"
    and n64: "cksum_bytes g + 5 + n < 2 ^ 64"
    and T: "if bit flag 7 then length T = 8 else T = []"
  shows "\<exists>d1. read_chunk g csize (htonll n @ S @ M @ [flag] @ P @ T @ rest) d = Inr (Some (d1, rest))
          \<and> loaded g d1 S M flag P T \<and> len_cmp_be d1 = htonll n
          \<and> chunksize d1 = chunksize d \<and> cksum_mt d1 = cksum_mt d"
proof -
  let ?body = "S @ M @ [flag] @ P @ T"
  let ?inp = "htonll n @ ?body @ rest"
  have n64': "n < 2 ^ 64" using n64 by simp
  have tk: "take 8 ?inp = htonll n" by simp
  have nn: "ntohll (htonll n) = n" by (rule ntohll_htonll[OF n64'])
  have want: "n + cksum_bytes g + mac_bytes g + CHUNK_FLAG_SZ = length ?body"
    using lens n m by (simp add: CHUNK_FLAG_SZ_def)
  have bd: "take (length ?body) (drop 8 ?inp) = ?body" by simp
  have dr: "drop (8 + length ?body) ?inp = rest" by simp
  define d1 where "d1 = d\<lparr>len_cmp_be := htonll n, len_cmp := n,
                           compressed_chunk := blit (compressed_chunk d) 0 ?body,
                           rbytes := length ?body\<rparr>"
  have rc: "read_chunk g csize ?inp d = Inr (Some (d1, rest))"
    unfolding read_chunk_def Let_def tk nn want bd dr d1_def using n0 nle by simp
  have lb: "cksum_bytes g + 5 + length P + length T = length ?body" using lens by simp
  have cc1: "compressed_chunk d1 = blit (compressed_chunk d) 0 ?body" by (simp add: d1_def)
  have "rd (compressed_chunk d1) 0 (length ?body) = ?body" unfolding cc1 by (rule rd_blit_same)
  then have "loaded g d1 S M flag P T"
    unfolding loaded_def lb using lens n n64 T by (simp add: d1_def)
  moreover have "len_cmp_be d1 = htonll n" "chunksize d1 = chunksize d" "cksum_mt d1 = cksum_mt d"
    by (simp_all add: d1_def)
  ultimately show ?thesis using rc by (intro exI[of _ d1]) simp
qed

lemma perform_decompress_copy:
  assumes ld: "loaded g d S M flag P T" and m: "mac_bytes g = 4" and nc: "encrypt_type g = 0"
    and chain: "crc_chains E"
    and crc: "ntohl M = expected_crc E (len_cmp_be d) S flag T"
    and f0: "\<not> bit flag 0" and f1: "\<not> bit flag 1"
    and sz: "(if bit flag 7 then ntohll T else chunksize d) = length P"
    and ck: "rd (compute_checksum E P (cksum_mt d)) 0 (cksum_bytes g)
             = rd (deserialize_checksum E S) 0 (cksum_bytes g)"
  shows "\<exists>u. perform_decompress g E d = Inr u \<and> rd (cmp_seg u) 0 (len_cmp u) = P"
proof -
  let ?c = "cksum_bytes g"
  let ?d1 = "d\<lparr>rbytes := ?c + 5 + length P, len_cmp := length P\<rparr>"
  note rf = read_flags_loaded[OF ld m]
  from verify_chunk_loaded[OF ld m nc chain] crc obtain cb1 where
    vc: "verify_chunk g E flag ?d1
          = Inr (d\<lparr>rbytes := ?c + 5 + length P, len_cmp := length P,
                    compressed_chunk := cb1, checksum := deserialize_checksum E S\<rparr>)"
    and pl: "rd cb1 (?c + 5) (length P) = P" by auto
  have cs: "?c + mac_bytes g + CHUNK_FLAG_SZ = ?c + 5" by (simp add: m CHUNK_FLAG_SZ_def)
  show ?thesis
    unfolding perform_decompress_def rf prod.case vc sum.case Let_def cs byte_and_1 byte_and_2
      decompress_data_def sz
    using f0 f1 pl ck nc by simp
qed

section \<open>The frame of a chunk\<close>

lemma perform_compress_stage:
  "perform_compress g E t
     = (case stage_out g E t of (t2, rv, csz) \<Rightarrow> frame_chunk g E t2 (rbytes t) rv csz)"
  by (simp add: perform_compress_def stage_out_def split: prod.splits)

lemma authenticate_flag:
  assumes "mac_fits g E"
  shows "rd (authenticate g E (blit s (hdr_off g) [b]) tlen hsz type) (hdr_off g) 1 = [b]"
proof (cases "encrypt_type g = 0")
  case True
  with assms have m: "4 \<le> mac_bytes g" by (simp add: mac_fits_def)
  show ?thesis
    unfolding authenticate_def Let_def using True m
    by (simp add: rd_blit_simps hdr_off_def COMPRESSED_CHUNKSZ_def)
next
  case False
  with assms have m: "\<And>x. length (hmac E x) \<le> mac_bytes g" by (simp add: mac_fits_def)
  show ?thesis
    unfolding authenticate_def Let_def using False m
    by (simp add: rd_blit_simps hdr_off_def COMPRESSED_CHUNKSZ_def)
qed

lemma frame_chunk_flag:
  assumes fc: "frame_chunk g E t rbytes0 rv0 csz = Inr t'" and fit: "mac_fits g E"
  shows "rd (cmp_seg t') (hdr_off g) 1 = [flag_of g t rbytes0 rv0 csz]"
    and "hdr_off g < len_cmp t'"
proof -
  from fc obtain s tl hs where
    t': "t' = t\<lparr>cmp_seg := authenticate g E (blit s (hdr_off g) [flag_of g t rbytes0 rv0 csz]) tl hs
                   (chunk_type g (rctx_valid t) (fallback_of rbytes0 rv0 csz)
                      (if fallback_of rbytes0 rv0 csz \<and> rv0 < 0 then COMPRESS_NONE else rv0)
                      (rbytes t < chunksize t)),
               len_cmp := tl\<rparr>"
    and tl: "hdr_off g < tl"
    unfolding frame_chunk_def Let_def flag_of_def fallback_of_def
    by (auto split: sum.splits if_splits prod.splits
        simp: hdr_off_def COMPRESSED_CHUNKSZ_def CHUNK_FLAG_SZ_def ORIGINAL_CHUNKSZ_def)
  show "rd (cmp_seg t') (hdr_off g) 1 = [flag_of g t rbytes0 rv0 csz]"
    unfolding t' using authenticate_flag[OF fit] by simp
  show "hdr_off g < len_cmp t'" unfolding t' using tl by simp
qed


lemma slot_sel:
  "cmp_seg (slot_of x cs) = []" "compressed_chunk (slot_of x cs) = []"
  "uncompressed_chunk (slot_of x cs) = x" "rbytes (slot_of x cs) = length x"
  "chunksize (slot_of x cs) = cs" "level (slot_of x cs) = 6" "cksum_mt (slot_of x cs) = 0"
  "rctx_valid (slot_of x cs) = False" "rctx_level (slot_of x cs) = 6"
  "delta2_span (slot_of x cs) = 50" "chunk_id (slot_of x cs) = 0" "checksum (slot_of x cs) = []"
  by (simp_all add: slot_of_def)

lemma len4: "length [a, b, c, d] = 4"
  by simp

lemma e1: "dedup_stage opts_LP toy (slot_of [9, 9, 5, 6] 4) = (slot_of [9, 9, 5, 6] 4\<lparr>checksum := [29]\<rparr>, 0)"
  by (simp add: dedup_stage_def dedup_on_def toy_sel opts_LP_sel slot_sel rd_def)

lemma e2: "lzp_stage opts_LP toy [9, 9, 5, 6] 0 4 [] 14 4 6
   = Inr (1, 3, [9, 5, 6, 6], replicate 14 0 @ [9, 5, 6])"
  by (simp add: lzp_stage_def toy_eval buf_eval PREPROC_TYPE_LZP_def)

lemma e3: "delta2_stage opts_LP toy 50 0 14 (1, 3, [9, 5, 6, 6], replicate 14 0 @ [9, 5, 6])
   = (3, 2, [5, 6, 6, 6], replicate 14 0 @ [5, 6, 6])"
  by (simp add: delta2_stage_def toy_eval buf_eval PREPROC_TYPE_DELTA2_def)

lemma stage_out_9956:
  "\<exists>seg. stage_out opts_LP toy (slot_of [9, 9, 5, 6] 4)
      = (slot_of [9, 9, 5, 6] 4\<lparr>checksum := [29], cmp_seg := seg, uncompressed_chunk := [5, 6, 6, 6]\<rparr>, 0, 3)
    \<and> rd seg 14 3 = [3, 5, 6]"
proof -
  have c: "rle_compress (rd [5, 6, 6, 6] 0 2) 2 6 0 = (- 1, [])"
    by (simp add: rle_compress_def rd_def)
  from backend_stage_fallback[where cmp_func = rle_compress and src = "[5, 6, 6, 6]" and so = 0
      and n = 2 and lvl = 6 and chdr = 0 and r = "- 1" and out = "[]" and dof = 14 and t = 3
      and dst = "replicate 14 0 @ [5, 6, 6]", OF c]
  obtain seg where b: "backend_stage rle_compress 6 0 0 14 (3, 2, [5, 6, 6, 6], replicate 14 0 @ [5, 6, 6])
        = (0, [5, 6, 6, 6], seg, 3)" and r: "rd seg 14 3 = [3, 5, 6]"
    by (auto simp: rd_def)
  have pp: "preproc_compress opts_LP toy rle_compress [9, 9, 5, 6] 0 4 [] 14 4 6 0 50
        = (0, [5, 6, 6, 6], seg, 3)"
    unfolding preproc_compress_def e2 sum.case e3 b ..
  have "stage_out opts_LP toy (slot_of [9, 9, 5, 6] 4)
      = (slot_of [9, 9, 5, 6] 4\<lparr>checksum := [29], cmp_seg := seg, uncompressed_chunk := [5, 6, 6, 6]\<rparr>, 0, 3)"
    unfolding stage_out_def e1 prod.case
    by (simp add: compress_stage_def compress_data_def dedup_on_def preproc_on_def opts_LP_sel toy_sel
        slot_sel len4 hdr_off_def COMPRESSED_CHUNKSZ_def CHUNK_FLAG_SZ_def pp del: list.size)
  with r show ?thesis by blast
qed


lemma perform_compress_plain:
  assumes nc: "encrypt_type g = 0" and m: "mac_bytes g = 4"
    and so: "stage_out g E t = (t2, rv, csz)"
    and ad: "adapt_mode g \<Longrightarrow> rv < 8"
  shows "\<exists>t'. perform_compress g E t = Inr t'
          \<and> frame_bytes t' = htonll (len_field t2 (rbytes t) rv csz) @ cksum_slot g E t2
               @ htonl (chunk_crc g E t2 (rbytes t) rv csz) @ [flag_of g t2 (rbytes t) rv csz]
               @ payload_of g t2 (rbytes t) rv csz @ trailer_of t2"
proof -
  from frame_chunk_plain[where g = g and E = E and t = t2 and ?rbytes0.0 = "rbytes t" and ?rv0.0 = rv
      and csz = csz, OF nc m ad]
  obtain seg where fc: "frame_chunk g E t2 (rbytes t) rv csz
        = Inr (t2\<lparr>cmp_seg := seg,
                  len_cmp := 13 + cksum_bytes g + payload_len t2 (rbytes t) rv csz + length (trailer_of t2)\<rparr>)"
    and fr: "rd seg 0 (13 + cksum_bytes g + payload_len t2 (rbytes t) rv csz + length (trailer_of t2))
        = htonll (len_field t2 (rbytes t) rv csz) @ cksum_slot g E t2
               @ htonl (chunk_crc g E t2 (rbytes t) rv csz) @ [flag_of g t2 (rbytes t) rv csz]
               @ payload_of g t2 (rbytes t) rv csz @ trailer_of t2"
    by blast
  show ?thesis
    unfolding perform_compress_stage so prod.case fc frame_bytes_def using fr by simp
qed

lemma frame_9956:
  "\<exists>t'. perform_compress opts_LP toy (slot_of [9, 9, 5, 6] 4) = Inr t'
     \<and> frame_bytes t' = htonll 3 @ [29]
          @ htonl (lzma_crc32 toy (htonll 3 @ [29] @ replicate 4 0 @ [5]) 0) @ [5] @ [3, 5, 6]"
proof -
  from stage_out_9956 obtain seg where
    so: "stage_out opts_LP toy (slot_of [9, 9, 5, 6] 4)
      = (slot_of [9, 9, 5, 6] 4\<lparr>checksum := [29], cmp_seg := seg, uncompressed_chunk := [5, 6, 6, 6]\<rparr>, 0, 3)"
    and r: "rd seg 14 3 = [3, 5, 6]" by blast
  let ?t2 = "slot_of [9, 9, 5, 6] 4\<lparr>checksum := [29], cmp_seg := seg, uncompressed_chunk := [5, 6, 6, 6]\<rparr>"
  have rb: "rbytes (slot_of [9, 9, 5, 6] 4) = 4" by (simp add: slot_sel)
  have fb: "\<not> fallback_of 4 0 3"
    by (simp add: fallback_of_def)
  have pl: "payload_len ?t2 4 0 3 = 3"
    by (simp add: payload_len_def fb)
  have lf: "len_field ?t2 4 0 3 = 3"
    by (simp add: len_field_def pl slot_sel)
  have cs: "cksum_slot opts_LP toy ?t2 = [29]"
    by (simp add: cksum_slot_def opts_LP_sel toy_sel rd_def)
  have fl: "flag_of opts_LP ?t2 4 0 3 = 5"
    unfolding flag_of_def using fb
    by (simp add: chunk_type_def dedup_on_def preproc_on_def opts_LP_sel slot_sel
        COMPRESSED_def CHUNK_FLAG_PREPROC_def)
  have tr: "trailer_of ?t2 = []" by (simp add: trailer_of_def slot_sel)
  have po: "payload_of opts_LP ?t2 4 0 3 = [3, 5, 6]"
    unfolding payload_of_def pl using fb r
    by (simp add: hdr_off_def opts_LP_sel COMPRESSED_CHUNKSZ_def CHUNK_FLAG_SZ_def)
  have cr: "chunk_crc opts_LP toy ?t2 4 0 3
      = lzma_crc32 toy (htonll 3 @ [29] @ replicate 4 0 @ [5]) 0"
    unfolding chunk_crc_def lf cs fl by (simp add: opts_LP_sel slot_sel)
  from perform_compress_plain[OF opts_LP_sel(6) opts_LP_sel(9) so]
  show ?thesis unfolding rb lf cs fl tr po cr by (simp add: opts_LP_sel)
qed


lemma rd_one: "rd b off 1 = [byte_at b off]"
proof -
  have "rd b off 1 ! 0 = byte_at b (off + 0)" by (rule rd_nth) simp
  moreover from length_rd[of b off 1] obtain x where "rd b off 1 = [x]"
    by (metis One_nat_def length_0_conv length_Suc_conv)
  ultimately show ?thesis by simp
qed

lemma frame_flag_byte:
  assumes pc: "perform_compress g E t = Inr t'"
    and so: "stage_out g E t = (t2, rv, csz)"
    and fit: "mac_fits g E"
  shows "hdr_off g < length (frame_bytes t')"
    and "frame_bytes t' ! hdr_off g = flag_of g t2 (rbytes t) rv csz"
proof -
  from pc have fc: "frame_chunk g E t2 (rbytes t) rv csz = Inr t'"
    unfolding perform_compress_stage so prod.case .
  note F = frame_chunk_flag[OF fc fit]
  show l: "hdr_off g < length (frame_bytes t')" unfolding frame_bytes_def using F(2) by simp
  have "frame_bytes t' ! hdr_off g = byte_at (cmp_seg t') (0 + hdr_off g)"
    unfolding frame_bytes_def by (rule rd_nth) (rule F(2))
  moreover from F(1)[unfolded rd_one] have "byte_at (cmp_seg t') (hdr_off g) = flag_of g t2 (rbytes t) rv csz"
    by simp
  ultimately show "frame_bytes t' ! hdr_off g = flag_of g t2 (rbytes t) rv csz" by simp
qed

section \<open>Chunks that are stored raw\<close>

lemma stage_out_raw:
  assumes np: "\<not> preproc_on g"
    and nd: "dedup_on g \<Longrightarrow> \<not> fst (dedupe_compress E (chunk_data g t))"
    and be: "compress E (chunk_data g t) (rbytes t) (level t) 0 = (rv, out)"
  shows "\<exists>t2. stage_out g E t = (t2, rv, length out)
          \<and> rd (uncompressed_chunk t2) 0 (rbytes t) = chunk_data g t
          \<and> rbytes t2 = rbytes t \<and> chunksize t2 = chunksize t
          \<and> (encrypt_type g = 0 \<longrightarrow> checksum t2 = compute_checksum E (chunk_data g t) (cksum_mt t))
          \<and> \<not> (dedup_on g \<and> rctx_valid t2)"
proof (cases "dedup_on g")
  case False
  then have cd: "chunk_data g t = rd (uncompressed_chunk t) 0 (rbytes t)" by (simp add: chunk_data_def)
  show ?thesis
    unfolding stage_out_def using False np be
    by (auto simp: dedup_stage_def compress_stage_def compress_data_def cd Let_def)
next
  case True
  then have cd: "chunk_data g t = rd (cmp_seg t) 0 (rbytes t)" by (simp add: chunk_data_def)
  obtain v isz o' where dc: "dedupe_compress E (rd (cmp_seg t) 0 (rbytes t)) = (v, isz, o')"
    by (cases "dedupe_compress E (rd (cmp_seg t) 0 (rbytes t))") auto
  with nd[OF True] have v: "\<not> v" by (simp add: cd)
  show ?thesis
    unfolding stage_out_def using True np be v
    by (auto simp: dedup_stage_def compress_stage_def compress_data_def cd dc Let_def rd_blit_simps)
qed


lemma crc_chains_toy: "crc_chains toy"
  by (simp add: crc_chains_def toy_sel)

lemma cksum_codec_toy: "cksum_bytes g = 1 \<Longrightarrow> cksum_codec g toy"
proof -
  assume c: "cksum_bytes g = 1"
  have "rd (rev (rd (rev x) 0 1)) 0 1 = x" if "length x = 1" for x :: bytes
  proof -
    from that obtain a where "x = [a]" by (cases x) auto
    then show ?thesis by (simp add: rd_def)
  qed
  then show ?thesis by (simp add: cksum_codec_def toy_sel c)
qed

lemma opts_plain_sel:
  "enable_rabin_scan opts_plain = False" "enable_fixed_scan opts_plain = False"
  "enable_rabin_global opts_plain = False" "enable_delta2_encode opts_plain = False"
  "lzp_preprocess opts_plain = False" "encrypt_type opts_plain = 0" "adapt_mode opts_plain = False"
  "cksum_bytes opts_plain = 1" "mac_bytes opts_plain = 4"
  by (simp_all add: opts_plain_def)

section \<open>What the chunk CRC32 covers\<close>

lemma perform_decompress_crc:
  "perform_decompress g E d = Inl CrcFail \<longleftrightarrow>
     (case read_flags g d of (HDR, t1, csz0) \<Rightarrow> verify_chunk g E HDR t1 = Inl CrcFail)"
  unfolding perform_decompress_def Let_def
  by (auto split: prod.splits sum.splits if_splits)

lemma crc_fail_iff:
  assumes ld: "loaded g d S M flag P T" and m: "mac_bytes g = 4" and nc: "encrypt_type g = 0"
    and chain: "crc_chains E"
  shows "perform_decompress g E d = Inl CrcFail \<longleftrightarrow> ntohl M \<noteq> expected_crc E (len_cmp_be d) S flag T"
proof -
  from verify_chunk_loaded[OF ld m nc chain] obtain cb1 where
    vc: "verify_chunk g E flag (d\<lparr>rbytes := cksum_bytes g + 5 + length P, len_cmp := length P\<rparr>)
          = (if ntohl M \<noteq> expected_crc E (len_cmp_be d) S flag T then Inl CrcFail
             else Inr (d\<lparr>rbytes := cksum_bytes g + 5 + length P, len_cmp := length P,
                          compressed_chunk := cb1, checksum := deserialize_checksum E S\<rparr>))"
    by blast
  show ?thesis
    unfolding perform_decompress_crc read_flags_loaded[OF ld m] prod.case vc by simp
qed

lemma chunk_crc_expected:
  assumes m: "mac_bytes g = 4" and ad: "adapt_mode g \<Longrightarrow> rv < 8"
  shows "chunk_crc g E t rb rv csz
       = expected_crc E (htonll (len_field t rb rv csz)) (cksum_slot g E t) (flag_of g t rb rv csz)
           (trailer_of t)"
proof -
  have "bit (flag_of g t rb rv csz) 7 \<longleftrightarrow> rbytes t < chunksize t"
    using flag_of_bits[where g = g and t = t and ?rbytes0.0 = rb and ?rv0.0 = rv and csz = csz
        and n = 7, OF ad] by simp
  then show ?thesis
    by (simp add: chunk_crc_def expected_crc_def m trailer_of_def Let_def)
qed


lemma header_crc_frame:
  assumes nc: "encrypt_type g = 0" and m: "mac_bytes g = 4"
    and so: "stage_out g E t = (t2, rv, csz)"
    and ad: "adapt_mode g \<Longrightarrow> rv < 8"
  shows "\<exists>t' n S flag P T.
           perform_compress g E t = Inr t'
         \<and> frame_bytes t' = htonll n @ S @ htonl (expected_crc E (htonll n) S flag T) @ [flag] @ P @ T
         \<and> length S = cksum_bytes g \<and> (if bit flag 7 then T = htonll (rbytes t2) else T = [])"
proof -
  have b7: "bit (flag_of g t2 (rbytes t) rv csz) 7 \<longleftrightarrow> rbytes t2 < chunksize t2"
    using flag_of_bits[where g = g and t = t2 and ?rbytes0.0 = "rbytes t" and ?rv0.0 = rv
        and csz = csz and n = 7, OF ad] by simp
  from perform_compress_plain[OF nc m so ad] obtain t' where
    pc: "perform_compress g E t = Inr t'"
    and fr: "frame_bytes t' = htonll (len_field t2 (rbytes t) rv csz) @ cksum_slot g E t2
               @ htonl (chunk_crc g E t2 (rbytes t) rv csz) @ [flag_of g t2 (rbytes t) rv csz]
               @ payload_of g t2 (rbytes t) rv csz @ trailer_of t2" by blast
  show ?thesis
    apply (rule exI[of _ t'], rule exI[of _ "len_field t2 (rbytes t) rv csz"])
    apply (rule exI[of _ "cksum_slot g E t2"], rule exI[of _ "flag_of g t2 (rbytes t) rv csz"])
    apply (rule exI[of _ "payload_of g t2 (rbytes t) rv csz"], rule exI[of _ "trailer_of t2"])
    apply (intro conjI)
    apply (rule pc)
    apply (simp add: fr chunk_crc_expected[OF m ad])
    apply (simp add: cksum_slot_def)
    apply (simp add: b7 trailer_of_def)
    done
qed

lemma perform_decompress_copy_mismatch:
  assumes ld: "loaded g d S M flag P T" and m: "mac_bytes g = 4" and nc: "encrypt_type g = 0"
    and chain: "crc_chains E"
    and crc: "ntohl M = expected_crc E (len_cmp_be d) S flag T"
    and f0: "\<not> bit flag 0" and f1: "\<not> bit flag 1"
    and sz: "(if bit flag 7 then ntohll T else chunksize d) = length P"
    and ck: "rd (compute_checksum E P (cksum_mt d)) 0 (cksum_bytes g)
             \<noteq> rd (deserialize_checksum E S) 0 (cksum_bytes g)"
  shows "perform_decompress g E d = Inl ChecksumFail"
proof -
  let ?c = "cksum_bytes g"
  let ?d1 = "d\<lparr>rbytes := ?c + 5 + length P, len_cmp := length P\<rparr>"
  note rf = read_flags_loaded[OF ld m]
  from verify_chunk_loaded[OF ld m nc chain] crc obtain cb1 where
    vc: "verify_chunk g E flag ?d1
          = Inr (d\<lparr>rbytes := ?c + 5 + length P, len_cmp := length P,
                    compressed_chunk := cb1, checksum := deserialize_checksum E S\<rparr>)"
    and pl: "rd cb1 (?c + 5) (length P) = P" by auto
  have cs: "?c + mac_bytes g + CHUNK_FLAG_SZ = ?c + 5" by (simp add: m CHUNK_FLAG_SZ_def)
  show ?thesis
    unfolding perform_decompress_def rf prod.case vc sum.case Let_def cs byte_and_1 byte_and_2
      decompress_data_def sz
    using f0 f1 pl ck nc by simp
qed

lemma frame_1234:
  "\<exists>t'. perform_compress opts_plain toy (slot_of [1, 2, 3, 4] 4) = Inr t'
     \<and> frame_bytes t' = htonll 4 @ [10]
          @ htonl (expected_crc toy (htonll 4) [10] 0 []) @ [0] @ [1, 2, 3, 4]"
proof -
  let ?t = "slot_of [1, 2, 3, 4] 4"
  have cd: "chunk_data opts_plain ?t = [1, 2, 3, 4]"
    by (simp add: chunk_data_def dedup_on_def opts_plain_sel slot_sel rd_def)
  have rb: "rbytes ?t = 4" by (simp add: slot_sel)
  have np: "\<not> preproc_on opts_plain" by (simp add: preproc_on_def opts_plain_sel)
  have nd: "dedup_on opts_plain \<Longrightarrow> \<not> fst (dedupe_compress toy (chunk_data opts_plain ?t))"
    by (simp add: dedup_on_def opts_plain_sel)
  have be: "compress toy (chunk_data opts_plain ?t) (rbytes ?t) (level ?t) 0 = (- 1, [])"
    unfolding cd by (simp add: toy_sel rle_compress_def)
  from stage_out_raw[OF np nd be] obtain t2 where
    so: "stage_out opts_plain toy ?t = (t2, - 1, 0)"
    and ub: "rd (uncompressed_chunk t2) 0 4 = [1, 2, 3, 4]"
    and rb2: "rbytes t2 = 4" and cz: "chunksize t2 = 4"
    and ck: "checksum t2 = [10]"
    unfolding cd rb by (auto simp: opts_plain_sel toy_sel slot_sel)
  have fb: "fallback_of 4 (- 1) 0" by (simp add: fallback_of_def)
  have pl: "payload_len t2 4 (- 1) 0 = 4" by (simp add: payload_len_def fb rb2)
  have lf: "len_field t2 4 (- 1) 0 = 4" by (simp add: len_field_def pl rb2 cz)
  have cs: "cksum_slot opts_plain toy t2 = [10]"
    by (simp add: cksum_slot_def opts_plain_sel toy_sel rd_def ck)
  have fl: "flag_of opts_plain t2 4 (- 1) 0 = 0"
    unfolding flag_of_def using fb
    by (simp add: chunk_type_def dedup_on_def preproc_on_def opts_plain_sel rb2 cz
        UNCOMPRESSED_def COMPRESS_NONE_def)
  have tr: "trailer_of t2 = []" by (simp add: trailer_of_def rb2 cz)
  have po: "payload_of opts_plain t2 4 (- 1) 0 = [1, 2, 3, 4]"
    unfolding payload_of_def using fb ub
    by (simp add: dedup_on_def opts_plain_sel rb2)
  have ad: "adapt_mode opts_plain \<Longrightarrow> (- 1 :: int) < 8" by simp
  have cr: "chunk_crc opts_plain toy t2 4 (- 1) 0 = expected_crc toy (htonll 4) [10] 0 []"
    using chunk_crc_expected[where g = opts_plain and E = toy and t = t2 and rb = 4 and rv = "- 1"
        and csz = 0, OF opts_plain_sel(9) ad]
    by (simp add: lf cs fl tr opts_plain_sel)
  from perform_compress_plain[OF opts_plain_sel(6) opts_plain_sel(9) so ad]
  show ?thesis unfolding rb lf cs fl tr po cr by simp
qed

lemma loaded_1235:
  "\<exists>d1. read_chunk opts_plain 4
           (htonll 4 @ [10] @ htonl (expected_crc toy (htonll 4) [10] 0 []) @ [0] @ [1, 2, 3, 5])
           (slot_of [] 4) = Inr (Some (d1, []))
       \<and> perform_decompress opts_plain toy d1 = Inl ChecksumFail"
proof -
  let ?M = "htonl (expected_crc toy (htonll 4) [10] 0 [])"
  have Tb: "if bit (0 :: byte) 7 then length ([] :: bytes) = 8 else ([] :: bytes) = []" by simp
  have lS: "length ([10] :: bytes) = cksum_bytes opts_plain" by (simp add: opts_plain_sel)
  have lM: "length ?M = 4" by simp
  have nn: "4 = length ([1, 2, 3, 5] :: bytes) + length ([] :: bytes)" by simp
  have n64: "cksum_bytes opts_plain + 5 + 4 < (2 :: nat) ^ 64" by (simp add: opts_plain_sel)
  from read_chunk_frame[OF opts_plain_sel(9) lS lM nn _ _ n64 Tb, of 4 "[]" "slot_of [] 4"]
  obtain d1 where
    rc: "read_chunk opts_plain 4 (htonll 4 @ [10] @ ?M @ [0] @ [1, 2, 3, 5] @ [] @ []) (slot_of [] 4)
          = Inr (Some (d1, []))"
    and ld: "loaded opts_plain d1 [10] ?M 0 [1, 2, 3, 5] []" and be1: "len_cmp_be d1 = htonll 4"
    and c1: "chunksize d1 = chunksize (slot_of [] 4)" and m1: "cksum_mt d1 = cksum_mt (slot_of [] 4)"
    by auto
  have crc: "ntohl ?M = expected_crc toy (len_cmp_be d1) [10] 0 []"
    unfolding ntohl_htonl be1 ..
  have sz: "(if bit (0 :: byte) 7 then ntohll [] else chunksize d1) = length ([1, 2, 3, 5] :: bytes)"
    by (simp add: c1 slot_sel)
  have ck: "rd (compute_checksum toy [1, 2, 3, 5] (cksum_mt d1)) 0 (cksum_bytes opts_plain)
             \<noteq> rd (deserialize_checksum toy [10]) 0 (cksum_bytes opts_plain)"
    by (simp add: toy_sel opts_plain_sel rd_def)
  from perform_decompress_copy_mismatch[OF ld opts_plain_sel(9) opts_plain_sel(6) crc_chains_toy crc _ _ sz ck]
  have "perform_decompress opts_plain toy d1 = Inl ChecksumFail" by simp
  with rc show ?thesis by auto
qed

section \<open>Chunks on which no stage applies\<close>

lemma preproc_unapplied:
  assumes d: "rd src so n = data"
    and na1: "\<not> lzp_applied g E data lvl" and na2: "\<not> delta2_applied g E data span"
    and be: "cmp_func data n lvl chdr = (rv, out)"
    and fail: "rv < 0 \<or> length out \<ge> n"
  shows "\<exists>rv' dst' csz'.
           preproc_compress g E cmp_func src so n dst dof n lvl chdr span = (rv', src, dst', csz')
         \<and> (rv' < 0 \<or> csz' \<ge> n) \<and> (rv' = rv \<or> rv' = - 1)"
proof -
  have ld: "length data = n" using d[symmetric] by simp
  show ?thesis
  proof (cases "lzp_stage g E src so n dst dof n lvl")
    case (Inl r)
    then have "\<exists>dst'. r = (- 1, src, dst', n)"
      by (auto simp: lzp_stage_def Let_def split: if_splits prod.splits)
    then show ?thesis unfolding preproc_compress_def Inl by auto
  next
    case (Inr st0)
    have "\<exists>dst0. st0 = (0, n, src, dst0)"
      using Inr na1 unfolding lzp_stage_def lzp_applied_def Let_def d ld
      by (auto split: if_splits prod.splits)
    then obtain dst0 where st0: "st0 = (0, n, src, dst0)" by blast
    have "\<exists>dst1. delta2_stage g E span so dof st0 = (0, n, src, dst1)"
      using na2 unfolding delta2_stage_def delta2_applied_def Let_def st0 prod.case d ld
      by (auto split: prod.splits)
    then obtain dst1 where d2: "delta2_stage g E span so dof st0 = (0, n, src, dst1)" by blast
    have be': "cmp_func (rd src so n) n lvl chdr = (rv, out)" unfolding d by (rule be)
    have f: "\<not> (rv > - 1 \<and> length out < n)" using fail by auto
    from backend_stage_fallback[where cmp_func = cmp_func and src = src and so = so and n = n
        and lvl = lvl and chdr = chdr and r = rv and out = out and dof = dof and t = 0 and dst = dst1,
        OF be' f]
    obtain dst' where "backend_stage cmp_func lvl chdr so dof (0, n, src, dst1) = (rv, src, dst', n + 1)"
      by auto
    then show ?thesis unfolding preproc_compress_def Inr sum.case d2 by auto
  qed
qed

lemma stage_out_unapplied:
  assumes na1: "\<not> lzp_applied g E (chunk_data g t) (level t)"
    and na2: "\<not> delta2_applied g E (chunk_data g t) (delta2_span t)"
    and nd: "dedup_on g \<Longrightarrow> \<not> fst (dedupe_compress E (chunk_data g t))"
    and be: "compress E (chunk_data g t) (rbytes t) (level t) 0 = (rv, out)"
    and fail: "rv < 0 \<or> length out \<ge> rbytes t"
  shows "\<exists>t2 rv' csz'. stage_out g E t = (t2, rv', csz')
          \<and> fallback_of (rbytes t) rv' csz' \<and> (rv' = rv \<or> rv' = - 1)
          \<and> rd (uncompressed_chunk t2) 0 (rbytes t) = chunk_data g t
          \<and> rbytes t2 = rbytes t \<and> chunksize t2 = chunksize t \<and> chunk_id t2 = chunk_id t
          \<and> (encrypt_type g = 0 \<longrightarrow> checksum t2 = compute_checksum E (chunk_data g t) (cksum_mt t))
          \<and> \<not> (dedup_on g \<and> rctx_valid t2)"
proof -
  obtain t1 isz where ds: "dedup_stage g E t = (t1, isz)" by (cases "dedup_stage g E t") auto
  have t1: "rd (uncompressed_chunk t1) 0 (rbytes t) = chunk_data g t \<and> rbytes t1 = rbytes t
          \<and> chunksize t1 = chunksize t \<and> chunk_id t1 = chunk_id t \<and> level t1 = level t
          \<and> delta2_span t1 = delta2_span t
          \<and> (encrypt_type g = 0 \<longrightarrow> checksum t1 = compute_checksum E (chunk_data g t) (cksum_mt t))
          \<and> \<not> (dedup_on g \<and> rctx_valid t1)"
  proof (cases "dedup_on g")
    case False
    then show ?thesis using ds by (auto simp: dedup_stage_def chunk_data_def Let_def)
  next
    case True
    then have cd: "chunk_data g t = rd (cmp_seg t) 0 (rbytes t)" by (simp add: chunk_data_def)
    obtain v i o' where dc: "dedupe_compress E (rd (cmp_seg t) 0 (rbytes t)) = (v, i, o')"
      by (cases "dedupe_compress E (rd (cmp_seg t) 0 (rbytes t))") auto
    with nd[OF True] have v: "\<not> v" by (simp add: cd)
    show ?thesis
    proof (cases "encrypt_type g = 0")
      case e: True
      show ?thesis using ds True v e
        by (auto simp: dedup_stage_def cd dc Let_def rd_blit_simps)
    next
      case e: False
      show ?thesis using ds True v e
        by (auto simp: dedup_stage_def cd dc Let_def rd_blit_simps)
    qed
  qed
  then have ub: "rd (uncompressed_chunk t1) 0 (rbytes t1) = chunk_data g t"
    and rb: "rbytes t1 = rbytes t" and ndv: "\<not> (dedup_on g \<and> rctx_valid t1)"
    and lv: "level t1 = level t" and sp: "delta2_span t1 = delta2_span t" by simp_all
  let ?cc = "hdr_off g + CHUNK_FLAG_SZ"
  have "\<exists>rv' ub' seg' csz'.
      compress_data g E t1 (uncompressed_chunk t1) 0 (rbytes t1) (cmp_seg t1) ?cc = (rv', ub', seg', csz')
      \<and> ub' = uncompressed_chunk t1 \<and> (rv' < 0 \<or> csz' \<ge> rbytes t) \<and> (rv' = rv \<or> rv' = - 1)"
  proof (cases "preproc_on g")
    case True
    from preproc_unapplied[where g = g and E = E and src = "uncompressed_chunk t1" and so = 0
        and n = "rbytes t1" and data = "chunk_data g t" and lvl = "level t1" and span = "delta2_span t1"
        and cmp_func = "compress E" and chdr = 0 and rv = rv and out = out and dst = "cmp_seg t1"
        and dof = ?cc, OF ub]
      na1 na2 be fail
    show ?thesis unfolding compress_data_def if_P[OF True] lv sp rb by auto
  next
    case False
    have ub': "rd (uncompressed_chunk t1) 0 (rbytes t) = chunk_data g t" using ub rb by simp
    show ?thesis unfolding compress_data_def if_not_P[OF False] rb ub' lv be prod.case
      using fail by auto
  qed
  then obtain rv' seg' csz' where
    cd: "compress_data g E t1 (uncompressed_chunk t1) 0 (rbytes t1) (cmp_seg t1) ?cc
          = (rv', uncompressed_chunk t1, seg', csz')"
    and fb: "rv' < 0 \<or> csz' \<ge> rbytes t" and rvs: "rv' = rv \<or> rv' = - 1" by blast
  have so: "stage_out g E t = (t1\<lparr>cmp_seg := seg', uncompressed_chunk := uncompressed_chunk t1\<rparr>, rv', csz')"
    unfolding stage_out_def ds prod.case compress_stage_def Let_def if_not_P[OF ndv] cd by simp
  show ?thesis
    apply (rule exI[of _ "t1\<lparr>cmp_seg := seg', uncompressed_chunk := uncompressed_chunk t1\<rparr>"])
    apply (rule exI[of _ rv'], rule exI[of _ csz'])
    using so fb rvs t1 by (auto simp: fallback_of_def)
qed


section \<open>The frame written in crypto mode\<close>

lemma frame_chunk_crypt:
  assumes enc: "encrypt_type g \<noteq> 0"
    and cb: "crypto_buf E (payload_of g t rbytes0 rv0 csz) (chunk_id t) = (ret, out)"
    and ok: "ret \<noteq> - 1" and lo: "length out = payload_len t rbytes0 rv0 csz"
    and hl: "\<And>x. length (hmac E x) = mac_bytes g"
  shows "\<exists>seg M. frame_chunk g E t rbytes0 rv0 csz
            = Inr (t\<lparr>cmp_seg := seg,
                     len_cmp := hdr_off g + 1 + payload_len t rbytes0 rv0 csz + length (trailer_of t)\<rparr>)
         \<and> rd seg 0 (hdr_off g + 1 + payload_len t rbytes0 rv0 csz + length (trailer_of t))
           = htonll (len_field t rbytes0 rv0 csz) @ rd (cmp_seg t) 8 (cksum_bytes g) @ M
             @ [flag_of g t rbytes0 rv0 csz] @ out @ trailer_of t
         \<and> M = rd (serialize_checksum E (hmac E
                   (htonll (len_field t rbytes0 rv0 csz) @ rd (cmp_seg t) 8 (cksum_bytes g)
                    @ replicate (mac_bytes g) 0 @ [flag_of g t rbytes0 rv0 csz] @ out @ trailer_of t)))
                 0 (mac_bytes g)"
proof -
  define c where "c = cksum_bytes g"
  define m where "m = mac_bytes g"
  define h where "h = 8 + c + m"
  define fb where "fb = fallback_of rbytes0 rv0 csz"
  define L where "L = payload_len t rbytes0 rv0 csz"
  define S where "S = rd (cmp_seg t) 8 c"
  define flag where "flag = flag_of g t rbytes0 rv0 csz"
  define short where "short = (rbytes t < chunksize t)"
  define LF where "LF = len_field t rbytes0 rv0 csz"
  define T where "T = trailer_of t"
  define seg1 where "seg1 = (if fb \<and> (\<not> dedup_on g \<or> \<not> rctx_valid t)
                 then blit (cmp_seg t) (hdr_off g + CHUNK_FLAG_SZ) (rd (uncompressed_chunk t) 0 (rbytes t))
                 else cmp_seg t)"
  define seg3 where "seg3 = blit (blit seg1 (hdr_off g + CHUNK_FLAG_SZ) out) 0 (htonll L)"
  define tlen where "tlen = L + CHUNK_FLAG_SZ + COMPRESSED_CHUNKSZ + (cksum_bytes g + mac_bytes g)"
  define seg5 where "seg5 = (if short
                        then blit (blit seg3 tlen (htonll (rbytes t))) 0 (htonll (L + ORIGINAL_CHUNKSZ))
                        else seg3)"
  define tlen' where "tlen' = (if short then tlen + ORIGINAL_CHUNKSZ else tlen)"
  define ty where "ty = chunk_type g (rctx_valid t) fb
                      (if fb \<and> rv0 < 0 then COMPRESS_NONE else rv0) short"
  define seg6 where "seg6 = blit seg5 (hdr_off g) [of_int ty]"
  define seg7 where "seg7 = blit seg6 (COMPRESSED_CHUNKSZ + cksum_bytes g) (replicate (mac_bytes g) 0)"
  have ho: "hdr_off g = h" by (simp add: hdr_off_def h_def c_def m_def COMPRESSED_CHUNKSZ_def)
  have cc: "hdr_off g + CHUNK_FLAG_SZ = h + 1" by (simp add: ho CHUNK_FLAG_SZ_def)
  have lS: "length S = c" by (simp add: S_def)
  have lO: "length out = L" using lo by (simp add: L_def)
  have L_fb: "fb \<Longrightarrow> L = rbytes t" by (simp add: L_def payload_len_def fb_def)
  have pay: "rd seg1 (hdr_off g + CHUNK_FLAG_SZ) L = payload_of g t rbytes0 rv0 csz"
    using L_fb
    by (auto simp: seg1_def payload_of_def fb_def[symmetric] L_def[symmetric] rd_blit_len)
  have LF: "LF = (if short then L + 8 else L)"
    by (simp add: LF_def len_field_def short_def L_def ORIGINAL_CHUNKSZ_def)
  have Tdef: "T = (if short then htonll (rbytes t) else [])"
    by (simp add: T_def trailer_of_def short_def)
  have fty: "flag = of_int ty" by (simp add: flag_def flag_of_def ty_def fb_def short_def)
  have tl: "tlen = h + 1 + L"
    by (simp add: tlen_def h_def c_def m_def CHUNK_FLAG_SZ_def COMPRESSED_CHUNKSZ_def)
  have tl': "tlen' = h + 1 + L + length T"
    by (simp add: tlen'_def tl Tdef ORIGINAL_CHUNKSZ_def)
  have mp: "COMPRESSED_CHUNKSZ + cksum_bytes g = 8 + c" by (simp add: COMPRESSED_CHUNKSZ_def c_def)
  have s1: "rd seg1 8 c = S"
    by (simp add: seg1_def S_def rd_blit_simps ho CHUNK_FLAG_SZ_def h_def)
  have r_len: "rd seg7 0 8 = htonll LF"
    by (simp add: seg7_def seg6_def seg5_def seg3_def LF rd_blit_simps ho mp tl h_def
        ORIGINAL_CHUNKSZ_def CHUNK_FLAG_SZ_def m_def[symmetric])
  have r_ck: "rd seg7 8 c = S"
    using s1 by (simp add: seg7_def seg6_def seg5_def seg3_def rd_blit_simps ho mp tl h_def
        ORIGINAL_CHUNKSZ_def CHUNK_FLAG_SZ_def m_def[symmetric])
  have r_mac: "rd seg7 (8 + c) m = replicate m 0"
    by (simp add: seg7_def rd_blit_simps mp m_def[symmetric])
  have r_flag: "rd seg7 h 1 = [flag]"
    by (simp add: seg7_def seg6_def rd_blit_simps ho mp h_def fty m_def[symmetric])
  have r_pay: "rd seg7 (h + 1) L = out"
    using lO by (simp add: seg7_def seg6_def seg5_def seg3_def rd_blit_simps ho mp tl h_def
        ORIGINAL_CHUNKSZ_def CHUNK_FLAG_SZ_def m_def[symmetric])
  have r_tr: "rd seg7 (h + 1 + L) (length T) = T"
    by (cases short) (simp_all add: seg7_def seg6_def seg5_def Tdef rd_blit_simps ho mp tl h_def
        ORIGINAL_CHUNKSZ_def CHUNK_FLAG_SZ_def m_def[symmetric])
  have whole: "rd b 0 (h + 1 + L + length T)
       = rd b 0 8 @ rd b 8 c @ rd b (8 + c) m @ rd b h 1 @ rd b (h + 1) L @ rd b (h + 1 + L) (length T)"
    for b
  proof -
    have "rd b 0 (8 + c + (m + 1 + (L + length T)))
       = rd b 0 8 @ rd b (0 + 8) c @ rd b (0 + 8 + c) (m + 1 + (L + length T))"
      by (rule rd_split3)
    also have "rd b (0 + 8 + c) (m + 1 + (L + length T))
       = rd b (8 + c) m @ rd b (8 + c + m) 1 @ rd b (8 + c + m + 1) (L + length T)"
      by (simp only: rd_split3 add_0)
    also have "rd b (8 + c + m + 1) (L + length T)
       = rd b (8 + c + m + 1) L @ rd b (8 + c + m + 1 + L) (length T)"
      by (rule rd_split)
    finally show ?thesis by (simp add: h_def add_ac)
  qed
  define X where "X = htonll LF @ S @ replicate m 0 @ [flag] @ out @ T"
  have w7: "rd seg7 0 (h + 1 + L + length T) = X"
    unfolding whole X_def r_len r_ck r_mac r_flag r_pay r_tr ..
  define M where "M = rd (serialize_checksum E (hmac E X)) 0 m"
  define seg8 where "seg8 = blit seg7 (8 + c) M"
  have lM: "length M = m" by (simp add: M_def)
  have cbr: "crypto_buf E (rd seg1 (hdr_off g + CHUNK_FLAG_SZ) L) (chunk_id t) = (ret, out)"
    unfolding pay by (rule cb)
  have raw: "frame_chunk g E t rbytes0 rv0 csz
            = Inr (t\<lparr>cmp_seg := authenticate g E seg6 tlen' (tlen - L) ty, len_cmp := tlen'\<rparr>)"
    unfolding frame_chunk_def Let_def seg6_def tlen'_def seg5_def tlen_def seg3_def ty_def short_def
    apply (simp only: if_P[OF enc] if_not_P[OF enc]
        cbr[unfolded seg1_def L_def payload_len_def fb_def fallback_of_def]
        seg1_def L_def payload_len_def fb_def fallback_of_def
        prod.case if_not_P[OF ok] sum.case)
    done
  have s7: "blit seg6 (8 + c) (replicate m 0) = seg7" by (simp add: seg7_def mp m_def)
  have au: "authenticate g E seg6 tlen' (tlen - L) ty = seg8"
    unfolding authenticate_def Let_def if_P[OF enc] mp m_def[symmetric] s7 tl' w7 hl seg8_def M_def ..
  have fc: "frame_chunk g E t rbytes0 rv0 csz
            = Inr (t\<lparr>cmp_seg := seg8, len_cmp := h + 1 + L + length T\<rparr>)"
    unfolding raw au unfolding tl' ..
  have s_len: "rd seg8 0 8 = htonll LF" unfolding seg8_def using r_len by (simp add: rd_blit_simps)
  have s_ck: "rd seg8 8 c = S" unfolding seg8_def using r_ck by (simp add: rd_blit_simps)
  have s_mac: "rd seg8 (8 + c) m = M" unfolding seg8_def using lM by (simp add: rd_blit_simps)
  have s_flag: "rd seg8 h 1 = [flag]" unfolding seg8_def using r_flag lM by (simp add: rd_blit_simps h_def)
  have s_pay: "rd seg8 (h + 1) L = out" unfolding seg8_def using r_pay lM by (simp add: rd_blit_simps h_def)
  have s_tr: "rd seg8 (h + 1 + L) (length T) = T"
    unfolding seg8_def using r_tr lM by (simp add: rd_blit_simps h_def)
  have w8: "rd seg8 0 (h + 1 + L + length T) = htonll LF @ S @ M @ [flag] @ out @ T"
    unfolding whole s_len s_ck s_mac s_flag s_pay s_tr ..
  show ?thesis
    apply (rule exI[of _ seg8], rule exI[of _ M])
    using fc w8
    unfolding ho M_def X_def c_def[symmetric] m_def[symmetric] L_def[symmetric] T_def[symmetric]
      LF_def[symmetric] S_def[symmetric] flag_def[symmetric]
    by simp
qed


section \<open>Reading and verifying a frame in crypto mode\<close>

lemma loaded_mac_regions:
  assumes body: "rd cb 0 (c + m + 1 + L + length T) = S @ M @ [flag] @ P @ T"
    and lens: "length S = c" "length M = m" "length P = L"
  shows "rd cb 0 c = S" "rd cb c m = M" "rd cb (c + m) 1 = [flag]" "rd cb (c + m + 1) L = P"
    "rd cb (c + m + 1 + L) (length T) = T"
proof -
  have "rd cb 0 (length S + (m + 1 + L + length T)) = S @ (M @ [flag] @ P @ T)"
    using body lens by (simp add: add.assoc)
  from rd_append_eq[OF this] have s: "rd cb 0 c = S"
    and r1: "rd cb c (m + 1 + L + length T) = M @ [flag] @ P @ T" using lens by simp_all
  have "rd cb c (length M + (1 + L + length T)) = M @ ([flag] @ P @ T)" using r1 lens by (simp add: add.assoc)
  from rd_append_eq[OF this] have mm: "rd cb c m = M"
    and r2: "rd cb (c + m) (1 + L + length T) = [flag] @ P @ T" using lens by simp_all
  have "rd cb (c + m) (length [flag] + (L + length T)) = [flag] @ (P @ T)" using r2 by (simp add: add.assoc)
  from rd_append_eq[OF this] have f: "rd cb (c + m) 1 = [flag]"
    and r3: "rd cb (c + m + 1) (L + length T) = P @ T" by simp_all
  have "rd cb (c + m + 1) (length P + length T) = P @ T" using r3 lens by simp
  from rd_append_eq[OF this] have p: "rd cb (c + m + 1) L = P" and t: "rd cb (c + m + 1 + L) (length T) = T"
    using lens by simp_all
  show "rd cb 0 c = S" "rd cb c m = M" "rd cb (c + m) 1 = [flag]" "rd cb (c + m + 1) L = P"
    "rd cb (c + m + 1 + L) (length T) = T" by (fact s mm f p t)+
qed

lemma read_chunk_frame_mac:
  assumes lens: "length S = cksum_bytes g" "length M = mac_bytes g"
    and n: "n = length P + length T" and n0: "0 < n" and nle: "n \<le> csize + 256"
    and n64: "cksum_bytes g + mac_bytes g + 1 + n < 2 ^ 64"
    and T: "if bit flag 7 then length T = 8 else T = []"
  shows "\<exists>d1. read_chunk g csize (htonll n @ S @ M @ [flag] @ P @ T @ rest) d = Inr (Some (d1, rest))
          \<and> loaded_mac g d1 S M flag P T \<and> len_cmp_be d1 = htonll n
          \<and> chunksize d1 = chunksize d \<and> cksum_mt d1 = cksum_mt d \<and> chunk_id d1 = chunk_id d
          \<and> uncompressed_chunk d1 = uncompressed_chunk d"
proof -
  let ?body = "S @ M @ [flag] @ P @ T"
  let ?inp = "htonll n @ ?body @ rest"
  have n64': "n < 2 ^ 64" using n64 by simp
  have tk: "take 8 ?inp = htonll n" by simp
  have nn: "ntohll (htonll n) = n" by (rule ntohll_htonll[OF n64'])
  have want: "n + cksum_bytes g + mac_bytes g + CHUNK_FLAG_SZ = length ?body"
    using lens n by (simp add: CHUNK_FLAG_SZ_def)
  have bd: "take (length ?body) (drop 8 ?inp) = ?body" by simp
  have dr: "drop (8 + length ?body) ?inp = rest" by simp
  define d1 where "d1 = d\<lparr>len_cmp_be := htonll n, len_cmp := n,
                           compressed_chunk := blit (compressed_chunk d) 0 ?body,
                           rbytes := length ?body\<rparr>"
  have rc: "read_chunk g csize ?inp d = Inr (Some (d1, rest))"
    unfolding read_chunk_def Let_def tk nn want bd dr d1_def using n0 nle by simp
  have lb: "cksum_bytes g + mac_bytes g + 1 + length P + length T = length ?body" using lens by simp
  have cc1: "compressed_chunk d1 = blit (compressed_chunk d) 0 ?body" by (simp add: d1_def)
  have "rd (compressed_chunk d1) 0 (length ?body) = ?body" unfolding cc1 by (rule rd_blit_same)
  then have "loaded_mac g d1 S M flag P T"
    unfolding loaded_mac_def lb using lens n n64 T by (simp add: d1_def)
  moreover have "len_cmp_be d1 = htonll n" "chunksize d1 = chunksize d" "cksum_mt d1 = cksum_mt d"
    "chunk_id d1 = chunk_id d" "uncompressed_chunk d1 = uncompressed_chunk d"
    by (simp_all add: d1_def)
  ultimately show ?thesis using rc by (intro exI[of _ d1]) simp
qed

lemma read_flags_loaded_mac:
  assumes ld: "loaded_mac g d S M flag P T"
  shows "read_flags g d =
           (flag, d\<lparr>rbytes := cksum_bytes g + mac_bytes g + 1 + length P, len_cmp := length P\<rparr>,
            if bit flag 7 then ntohll T else chunksize d)"
proof -
  let ?c = "cksum_bytes g"
  let ?m = "mac_bytes g"
  from ld have body: "rd (compressed_chunk d) 0 (?c + ?m + 1 + length P + length T) = S @ M @ [flag] @ P @ T"
    and lens: "length S = ?c" "length M = ?m" "length P = length P"
    and rb: "rbytes d = ?c + ?m + 1 + length P + length T" and lc: "len_cmp d = length P + length T"
    and sz: "rbytes d < 2 ^ 64" and T: "if bit flag 7 then length T = 8 else T = []"
    by (simp_all add: loaded_mac_def)
  note R = loaded_mac_regions[OF body lens]
  have h: "hd (rd (compressed_chunk d) (?c + ?m) 1) = flag" using R(3) by simp
  show ?thesis
  proof (cases "bit flag 7")
    case True
    with T have lt: "length T = 8" by simp
    have u1: "u64_sub (rbytes d) ORIGINAL_CHUNKSZ = ?c + ?m + 1 + length P"
      using u64_sub_simp[of 8 "rbytes d"] rb lt sz by (simp add: ORIGINAL_CHUNKSZ_def)
    have "len_cmp d < 2 ^ 64" using rb lc sz by simp
    then have u2: "u64_sub (len_cmp d) ORIGINAL_CHUNKSZ = length P"
      using u64_sub_simp[of 8 "len_cmp d"] lc lt by (simp add: ORIGINAL_CHUNKSZ_def)
    have tr: "rd (compressed_chunk d) (?c + ?m + 1 + length P) 8 = T" using R(5) lt by simp
    show ?thesis
      unfolding read_flags_def Let_def h byte_and_128 u1 u2
      using True tr by simp
  next
    case False
    with T have "T = []" by simp
    then have "d\<lparr>rbytes := ?c + ?m + 1 + length P, len_cmp := length P\<rparr> = d" using rb lc by simp
    then show ?thesis
      unfolding read_flags_def Let_def h byte_and_128 using False by simp
  qed
qed

lemma verify_chunk_loaded_crypt:
  assumes ld: "loaded_mac g d S M flag P T" and enc: "encrypt_type g \<noteq> 0"
  shows "\<exists>cb1. verify_chunk g E flag (d\<lparr>rbytes := cksum_bytes g + mac_bytes g + 1 + length P,
                                        len_cmp := length P\<rparr>)
          = (let mac = hmac E (len_cmp_be d @ S @ replicate (mac_bytes g) 0 @ [flag] @ P @ T) in
             if rd (deserialize_checksum E M) 0 (length mac) \<noteq> rd mac 0 (length mac) then Inl HmacFail
             else (case crypto_buf E P (chunk_id d) of (rv, out) \<Rightarrow>
                     if rv = - 1 then Inl DecryptFail
                     else Inr (d\<lparr>rbytes := cksum_bytes g + mac_bytes g + 1 + length P,
                                  len_cmp := length P,
                                  compressed_chunk := blit cb1 (cksum_bytes g + mac_bytes g + 1) out,
                                  checksum := mac\<rparr>)))"
proof -
  let ?c = "cksum_bytes g"
  let ?m = "mac_bytes g"
  let ?cc = "compressed_chunk d"
  from ld have body: "rd ?cc 0 (?c + ?m + 1 + length P + length T) = S @ M @ [flag] @ P @ T"
    and lens: "length S = ?c" "length M = ?m" "length P = length P"
    and T: "if bit flag 7 then length T = 8 else T = []"
    by (simp_all add: loaded_mac_def)
  note R = loaded_mac_regions[OF body lens]
  define cb1 where "cb1 = blit ?cc ?c (replicate ?m 0)"
  have c1: "rd cb1 0 ?c = S" unfolding cb1_def using R(1) by (simp add: rd_blit_simps)
  have c2: "rd cb1 ?c ?m = replicate ?m 0" unfolding cb1_def by (simp add: rd_blit_simps)
  have c3: "rd cb1 (?c + ?m) 1 = [flag]" unfolding cb1_def using R(3) by (simp add: rd_blit_simps)
  have c4: "rd cb1 (?c + ?m + 1) (length P) = P" unfolding cb1_def using R(4) by (simp add: rd_blit_simps)
  have "rd cb1 0 (?c + ?m + (1 + length P))
      = rd cb1 0 ?c @ rd cb1 (0 + ?c) ?m @ rd cb1 (0 + ?c + ?m) (1 + length P)" by (rule rd_split3)
  also have "rd cb1 (0 + ?c + ?m) (1 + length P) = rd cb1 (?c + ?m) 1 @ rd cb1 (?c + ?m + 1) (length P)"
    by (simp only: rd_split add_0)
  finally have hdr: "rd cb1 0 (?c + ?m + 1 + length P) = S @ replicate ?m 0 @ [flag] @ P"
    using c1 c2 c3 c4 by (simp add: add.assoc)
  define d1 where "d1 = d\<lparr>rbytes := ?c + ?m + 1 + length P, len_cmp := length P\<rparr>"
  have sel: "compressed_chunk d1 = ?cc" "rbytes d1 = ?c + ?m + 1 + length P" "len_cmp_be d1 = len_cmp_be d"
    "len_cmp d1 = length P" "chunk_id d1 = chunk_id d"
    by (simp_all add: d1_def)
  have tr: "(if bit flag 7 then rd ?cc (?c + ?m + 1 + length P) 8 else []) = T"
    using R(5) T by (auto split: if_splits)
  have cs: "?c + ?m + CHUNK_FLAG_SZ = ?c + ?m + 1" by (simp add: CHUNK_FLAG_SZ_def)
  have "verify_chunk g E flag d1
          = (let mac = hmac E (len_cmp_be d @ S @ replicate ?m 0 @ [flag] @ P @ T) in
             if rd (deserialize_checksum E M) 0 (length mac) \<noteq> rd mac 0 (length mac) then Inl HmacFail
             else (case crypto_buf E P (chunk_id d) of (rv, out) \<Rightarrow>
                     if rv = - 1 then Inl DecryptFail
                     else Inr (d1\<lparr>compressed_chunk := blit cb1 (?c + ?m + 1) out, checksum := mac\<rparr>)))"
    unfolding verify_chunk_def Let_def if_P[OF enc] ORIGINAL_CHUNKSZ_def byte_and_128 sel cs
      cb1_def[symmetric] hdr c4 R(2) tr
    by (simp split: prod.splits)
  then show ?thesis unfolding d1_def by (intro exI[of _ cb1]) simp
qed


lemma rd_self: "rd x 0 (length x) = x"
  by (simp add: rd_def)

lemma perform_decompress_copy_crypt:
  assumes ld: "loaded_mac g d S M flag P T" and enc: "encrypt_type g \<noteq> 0"
    and hm: "rd (deserialize_checksum E M) 0
                (length (hmac E (len_cmp_be d @ S @ replicate (mac_bytes g) 0 @ [flag] @ P @ T)))
             = rd (hmac E (len_cmp_be d @ S @ replicate (mac_bytes g) 0 @ [flag] @ P @ T)) 0
                (length (hmac E (len_cmp_be d @ S @ replicate (mac_bytes g) 0 @ [flag] @ P @ T)))"
    and dec: "crypto_buf E P (chunk_id d) = (rv, out)" and ok: "rv \<noteq> - 1"
    and lo: "length out = length P"
    and f0: "\<not> bit flag 0" and f1: "\<not> bit flag 1"
    and sz: "(if bit flag 7 then ntohll T else chunksize d) = length P"
  shows "\<exists>u. perform_decompress g E d = Inr u \<and> rd (cmp_seg u) 0 (len_cmp u) = out"
proof -
  let ?c = "cksum_bytes g"
  let ?m = "mac_bytes g"
  let ?d1 = "d\<lparr>rbytes := ?c + ?m + 1 + length P, len_cmp := length P\<rparr>"
  note rf = read_flags_loaded_mac[OF ld]
  from verify_chunk_loaded_crypt[OF ld enc, of E] obtain cb1 where
    vc: "verify_chunk g E flag ?d1
          = Inr (d\<lparr>rbytes := ?c + ?m + 1 + length P, len_cmp := length P,
                    compressed_chunk := blit cb1 (?c + ?m + 1) out,
                    checksum := hmac E (len_cmp_be d @ S @ replicate ?m 0 @ [flag] @ P @ T)\<rparr>)"
    unfolding Let_def dec prod.case using hm ok by auto
  have cs: "?c + ?m + CHUNK_FLAG_SZ = ?c + ?m + 1" by (simp add: CHUNK_FLAG_SZ_def)
  have pl: "rd (blit cb1 (?c + ?m + 1) out) (?c + ?m + 1) (length P) = out"
    using lo by (rule rd_blit_len)
  show ?thesis
    unfolding perform_decompress_def rf prod.case vc sum.case Let_def cs byte_and_1 byte_and_2
      decompress_data_def sz
    using f0 f1 pl enc lo by (simp add: rd_blit_len)
qed

lemma raw_round_trip_plain:
  assumes nc: "encrypt_type g = 0" and m: "mac_bytes g = 4"
    and so: "stage_out g E t = (t2, rv, csz)"
    and fb: "fallback_of (rbytes t) rv csz"
    and ub: "rd (uncompressed_chunk t2) 0 (rbytes t) = X"
    and rb: "rbytes t2 = rbytes t" and cz: "chunksize t2 = chunksize t"
    and ck: "checksum t2 = compute_checksum E X (cksum_mt t)"
    and ndv: "\<not> (dedup_on g \<and> rctx_valid t2)"
    and ad: "adapt_mode g \<Longrightarrow> rv < 8"
    and pos: "0 < rbytes t" and le: "rbytes t \<le> chunksize t"
    and big: "cksum_bytes g + mac_bytes g + rbytes t + 9 < 2 ^ 64"
    and chain: "crc_chains E" and codec: "cksum_codec g E"
  shows "\<exists>t' S M flag.
           perform_compress g E t = Inr t'
         \<and> frame_bytes t' = htonll (rbytes t + (if rbytes t < chunksize t then 8 else 0)) @ S @ M
               @ [flag] @ X @ (if rbytes t < chunksize t then htonll (rbytes t) else [])
         \<and> length S = cksum_bytes g \<and> length M = mac_bytes g
         \<and> \<not> bit flag 0 \<and> \<not> bit flag 1 \<and> (bit flag 7 \<longleftrightarrow> rbytes t < chunksize t)
         \<and> (\<forall>d rest f. cksum_mt d = cksum_mt t \<and> chunksize d = chunksize t \<and> chunk_id d = chunk_id t \<longrightarrow>
               (\<exists>d1 u. read_chunk g (chunksize t) (frame_bytes t' @ rest) d = Inr (Some (d1, rest))
                  \<and> perform_decompress g (E\<lparr>decompress := f\<rparr>) d1 = Inr u
                  \<and> rd (cmp_seg u) 0 (len_cmp u) = X))"
proof -
  let ?c = "cksum_bytes g"
  let ?short = "rbytes t < chunksize t"
  have lx: "length X = rbytes t" using ub[symmetric] by simp
  define S where "S = cksum_slot g E t2"
  define flag where "flag = flag_of g t2 (rbytes t) rv csz"
  define T where "T = (if ?short then htonll (rbytes t) else [])"
  define n where "n = rbytes t + (if ?short then 8 else 0)"
  define M where "M = htonl (chunk_crc g E t2 (rbytes t) rv csz)"
  have pl: "payload_len t2 (rbytes t) rv csz = rbytes t" by (simp add: payload_len_def fb rb)
  have lf: "len_field t2 (rbytes t) rv csz = n"
    by (simp add: len_field_def pl rb cz n_def ORIGINAL_CHUNKSZ_def)
  have po: "payload_of g t2 (rbytes t) rv csz = X"
    using fb ndv ub by (auto simp: payload_of_def rb)
  have tr: "trailer_of t2 = T" by (simp add: trailer_of_def T_def rb cz)
  from perform_compress_plain[OF nc m so ad] obtain t' where
    pc: "perform_compress g E t = Inr t'"
    and fr: "frame_bytes t' = htonll n @ S @ M @ [flag] @ X @ T"
    unfolding lf po tr S_def[symmetric] M_def[symmetric] flag_def[symmetric] by blast
  have lS: "length S = ?c" by (simp add: S_def cksum_slot_def)
  have lM: "length M = 4" by (simp add: M_def)
  have fbits: "bit flag k \<longleftrightarrow>
       (k = 0 \<and> \<not> fallback_of (rbytes t) rv csz) \<or> (k = 1 \<and> dedup_on g \<and> rctx_valid t2)
     \<or> (k = 2 \<and> preproc_on g)
     \<or> (adapt_mode g \<and> 4 \<le> k \<and> k < 7 \<and> 0 \<le> rv \<and> bit rv (k - 4))
     \<or> (k = 7 \<and> rbytes t2 < chunksize t2)" for k
    unfolding flag_def by (rule flag_of_bits[OF ad])
  have b0: "\<not> bit flag 0" unfolding fbits[of 0] using fb by simp
  have b1: "\<not> bit flag 1" unfolding fbits[of 1] using ndv by simp
  have b7: "bit flag 7 \<longleftrightarrow> ?short" unfolding fbits[of 7] by (simp add: rb cz)
  have Tb: "if bit flag 7 then length T = 8 else T = []" by (simp add: b7 T_def)
  have nn: "n = length X + length T" by (simp add: n_def lx T_def)
  have n0: "0 < n" using pos by (simp add: n_def)
  have nle: "n \<le> chunksize t + 256" using le by (simp add: n_def)
  have n64: "?c + 5 + n < 2 ^ 64" using big by (simp add: n_def m)
  have r64: "rbytes t < 2 ^ 64" using big by simp
  have "\<exists>d1 u. read_chunk g (chunksize t) (frame_bytes t' @ rest) d = Inr (Some (d1, rest))
                  \<and> perform_decompress g (E\<lparr>decompress := f\<rparr>) d1 = Inr u
                  \<and> rd (cmp_seg u) 0 (len_cmp u) = X"
    if dm: "cksum_mt d = cksum_mt t" and dc: "chunksize d = chunksize t" for d rest f
  proof -
    let ?E = "E\<lparr>decompress := f\<rparr>"
    from read_chunk_frame[OF m lS lM nn n0 nle n64 Tb, of rest d] obtain d1 where
      rc: "read_chunk g (chunksize t) (htonll n @ S @ M @ [flag] @ X @ T @ rest) d = Inr (Some (d1, rest))"
      and ld: "loaded g d1 S M flag X T" and be1: "len_cmp_be d1 = htonll n"
      and c1: "chunksize d1 = chunksize d" and m1: "cksum_mt d1 = cksum_mt d" by blast
    have chain': "crc_chains ?E" using chain by (simp add: crc_chains_def)
    have crc: "ntohl M = expected_crc ?E (len_cmp_be d1) S flag T"
      unfolding M_def ntohl_htonl be1 chunk_crc_def lf S_def[symmetric] flag_def[symmetric]
        expected_crc_def
      by (simp add: m b7 rb cz T_def Let_def)
    have sz: "(if bit flag 7 then ntohll T else chunksize d1) = length X"
      using le by (simp add: b7 T_def ntohll_htonll[OF r64] lx c1 dc)
    have "length (rd (checksum t2) 0 ?c) = ?c" by simp
    with codec have "rd (deserialize_checksum E S) 0 ?c = rd (checksum t2) 0 ?c"
      unfolding cksum_codec_def S_def cksum_slot_def by blast
    then have ckd: "rd (compute_checksum ?E X (cksum_mt d1)) 0 ?c = rd (deserialize_checksum ?E S) 0 ?c"
      by (simp add: ck m1 dm)
    from perform_decompress_copy[OF ld m nc chain' crc b0 b1 sz ckd] obtain u where
      "perform_decompress g ?E d1 = Inr u" "rd (cmp_seg u) 0 (len_cmp u) = X" by blast
    with rc show ?thesis unfolding fr by (intro exI[of _ d1] exI[of _ u]) simp
  qed
  then have dec: "\<forall>d rest f. cksum_mt d = cksum_mt t \<and> chunksize d = chunksize t \<and> chunk_id d = chunk_id t \<longrightarrow>
               (\<exists>d1 u. read_chunk g (chunksize t) (frame_bytes t' @ rest) d = Inr (Some (d1, rest))
                  \<and> perform_decompress g (E\<lparr>decompress := f\<rparr>) d1 = Inr u
                  \<and> rd (cmp_seg u) 0 (len_cmp u) = X)" by blast
  show ?thesis
    apply (rule exI[of _ t'], rule exI[of _ S], rule exI[of _ M], rule exI[of _ flag])
    apply (intro conjI)
    apply (rule pc)
    apply (simp add: fr n_def T_def)
    apply (rule lS)
    apply (simp add: lM m)
    apply (rule b0)
    apply (rule b1)
    apply (rule b7)
    apply (rule dec)
    done
qed

lemma raw_round_trip_crypt:
  assumes enc: "encrypt_type g \<noteq> 0"
    and so: "stage_out g E t = (t2, rv, csz)"
    and fb: "fallback_of (rbytes t) rv csz"
    and ub: "rd (uncompressed_chunk t2) 0 (rbytes t) = X"
    and rb: "rbytes t2 = rbytes t" and cz: "chunksize t2 = chunksize t"
    and ci: "chunk_id t2 = chunk_id t"
    and ndv: "\<not> (dedup_on g \<and> rctx_valid t2)"
    and ad: "adapt_mode g \<Longrightarrow> rv < 8"
    and pos: "0 < rbytes t" and le: "rbytes t \<le> chunksize t"
    and big: "cksum_bytes g + mac_bytes g + rbytes t + 9 < 2 ^ 64"
    and mc: "mac_codec g E" and cr: "crypto_inverts E X (chunk_id t)"
  shows "\<exists>t' S M flag.
           perform_compress g E t = Inr t'
         \<and> frame_bytes t' = htonll (rbytes t + (if rbytes t < chunksize t then 8 else 0)) @ S @ M
               @ [flag] @ snd (crypto_buf E X (chunk_id t))
               @ (if rbytes t < chunksize t then htonll (rbytes t) else [])
         \<and> length S = cksum_bytes g \<and> length M = mac_bytes g
         \<and> \<not> bit flag 0 \<and> \<not> bit flag 1 \<and> (bit flag 7 \<longleftrightarrow> rbytes t < chunksize t)
         \<and> (\<forall>d rest f. cksum_mt d = cksum_mt t \<and> chunksize d = chunksize t \<and> chunk_id d = chunk_id t \<longrightarrow>
               (\<exists>d1 u. read_chunk g (chunksize t) (frame_bytes t' @ rest) d = Inr (Some (d1, rest))
                  \<and> perform_decompress g (E\<lparr>decompress := f\<rparr>) d1 = Inr u
                  \<and> rd (cmp_seg u) 0 (len_cmp u) = X))"
proof -
  let ?c = "cksum_bytes g"
  let ?m = "mac_bytes g"
  let ?short = "rbytes t < chunksize t"
  have lx: "length X = rbytes t" using ub[symmetric] by simp
  obtain ret out where cb: "crypto_buf E X (chunk_id t) = (ret, out)"
    by (cases "crypto_buf E X (chunk_id t)") auto
  obtain ret' orig where cb2: "crypto_buf E out (chunk_id t) = (ret', orig)"
    by (cases "crypto_buf E out (chunk_id t)") auto
  from cr have ok: "ret \<noteq> - 1" and lo: "length out = length X" and ok2: "ret' \<noteq> - 1" and bk: "orig = X"
    unfolding crypto_inverts_def cb prod.case cb2 by simp_all
  from mc have hl: "\<And>x. length (hmac E x) = ?m"
    and mcd: "\<And>x. length x = ?m \<Longrightarrow>
        rd (deserialize_checksum E (rd (serialize_checksum E x) 0 ?m)) 0 ?m = x"
    by (simp_all add: mac_codec_def)
  define S where "S = rd (cmp_seg t2) 8 ?c"
  define flag where "flag = flag_of g t2 (rbytes t) rv csz"
  define T where "T = (if ?short then htonll (rbytes t) else [])"
  define n where "n = rbytes t + (if ?short then 8 else 0)"
  have pl: "payload_len t2 (rbytes t) rv csz = rbytes t" by (simp add: payload_len_def fb rb)
  have lf: "len_field t2 (rbytes t) rv csz = n"
    by (simp add: len_field_def pl rb cz n_def ORIGINAL_CHUNKSZ_def)
  have po: "payload_of g t2 (rbytes t) rv csz = X"
    using fb ndv ub by (auto simp: payload_of_def rb)
  have tr: "trailer_of t2 = T" by (simp add: trailer_of_def T_def rb cz)
  have cb': "crypto_buf E (payload_of g t2 (rbytes t) rv csz) (chunk_id t2) = (ret, out)"
    unfolding po ci by (rule cb)
  have lo': "length out = payload_len t2 (rbytes t) rv csz" unfolding pl lo by (rule lx)
  define M where "M = rd (serialize_checksum E (hmac E
                   (htonll n @ S @ replicate ?m 0 @ [flag] @ out @ T))) 0 ?m"
  from frame_chunk_crypt[OF enc cb' ok lo' hl]
  obtain seg where fc: "frame_chunk g E t2 (rbytes t) rv csz
            = Inr (t2\<lparr>cmp_seg := seg, len_cmp := hdr_off g + 1 + rbytes t + length T\<rparr>)"
    and fr0: "rd seg 0 (hdr_off g + 1 + rbytes t + length T) = htonll n @ S @ M @ [flag] @ out @ T"
    unfolding pl lf tr S_def[symmetric] flag_def[symmetric] M_def[symmetric] by blast
  define t' where "t' = t2\<lparr>cmp_seg := seg, len_cmp := hdr_off g + 1 + rbytes t + length T\<rparr>"
  have pc: "perform_compress g E t = Inr t'"
    unfolding perform_compress_stage so prod.case fc t'_def ..
  have fr: "frame_bytes t' = htonll n @ S @ M @ [flag] @ out @ T"
    unfolding frame_bytes_def t'_def using fr0 by simp
  have lS: "length S = ?c" by (simp add: S_def)
  have lM: "length M = ?m" by (simp add: M_def)
  have fbits: "bit flag k \<longleftrightarrow>
       (k = 0 \<and> \<not> fallback_of (rbytes t) rv csz) \<or> (k = 1 \<and> dedup_on g \<and> rctx_valid t2)
     \<or> (k = 2 \<and> preproc_on g)
     \<or> (adapt_mode g \<and> 4 \<le> k \<and> k < 7 \<and> 0 \<le> rv \<and> bit rv (k - 4))
     \<or> (k = 7 \<and> rbytes t2 < chunksize t2)" for k
    unfolding flag_def by (rule flag_of_bits[OF ad])
  have b0: "\<not> bit flag 0" unfolding fbits[of 0] using fb by simp
  have b1: "\<not> bit flag 1" unfolding fbits[of 1] using ndv by simp
  have b7: "bit flag 7 \<longleftrightarrow> ?short" unfolding fbits[of 7] by (simp add: rb cz)
  have Tb: "if bit flag 7 then length T = 8 else T = []" by (simp add: b7 T_def)
  have nn: "n = length out + length T" by (simp add: n_def lo lx T_def)
  have n0: "0 < n" using pos by (simp add: n_def)
  have nle: "n \<le> chunksize t + 256" using le by (simp add: n_def)
  have n64: "?c + ?m + 1 + n < 2 ^ 64" using big by (simp add: n_def)
  have r64: "rbytes t < 2 ^ 64" using big by simp
  have "\<exists>d1 u. read_chunk g (chunksize t) (frame_bytes t' @ rest) d = Inr (Some (d1, rest))
                  \<and> perform_decompress g (E\<lparr>decompress := f\<rparr>) d1 = Inr u
                  \<and> rd (cmp_seg u) 0 (len_cmp u) = X"
    if dc: "chunksize d = chunksize t" and di: "chunk_id d = chunk_id t" for d rest f
  proof -
    let ?E = "E\<lparr>decompress := f\<rparr>"
    from read_chunk_frame_mac[OF lS lM nn n0 nle n64 Tb, of rest d] obtain d1 where
      rc: "read_chunk g (chunksize t) (htonll n @ S @ M @ [flag] @ out @ T @ rest) d = Inr (Some (d1, rest))"
      and ld: "loaded_mac g d1 S M flag out T" and be1: "len_cmp_be d1 = htonll n"
      and c1: "chunksize d1 = chunksize d" and i1: "chunk_id d1 = chunk_id d" by blast
    let ?mac = "hmac E (htonll n @ S @ replicate ?m 0 @ [flag] @ out @ T)"
    have lmac: "length ?mac = ?m" by (rule hl)
    have "rd (deserialize_checksum E M) 0 ?m = ?mac" unfolding M_def by (rule mcd[OF lmac])
    moreover have "rd ?mac 0 ?m = ?mac" using rd_self[of ?mac] lmac by simp
    ultimately have hm: "rd (deserialize_checksum ?E M) 0
                (length (hmac ?E (len_cmp_be d1 @ S @ replicate ?m 0 @ [flag] @ out @ T)))
             = rd (hmac ?E (len_cmp_be d1 @ S @ replicate ?m 0 @ [flag] @ out @ T)) 0
                (length (hmac ?E (len_cmp_be d1 @ S @ replicate ?m 0 @ [flag] @ out @ T)))"
      by (simp add: be1 hl)
    have dec: "crypto_buf ?E out (chunk_id d1) = (ret', X)" using cb2 bk by (simp add: i1 di)
    have lo2: "length X = length out" using lo by simp
    have sz: "(if bit flag 7 then ntohll T else chunksize d1) = length out"
      using le by (simp add: b7 T_def ntohll_htonll[OF r64] lx lo c1 dc)
    from perform_decompress_copy_crypt[OF ld enc hm dec ok2 lo2 b0 b1 sz] obtain u where
      "perform_decompress g ?E d1 = Inr u" "rd (cmp_seg u) 0 (len_cmp u) = X" by blast
    with rc show ?thesis unfolding fr by (intro exI[of _ d1] exI[of _ u]) simp
  qed
  then have dec: "\<forall>d rest f. cksum_mt d = cksum_mt t \<and> chunksize d = chunksize t \<and> chunk_id d = chunk_id t \<longrightarrow>
               (\<exists>d1 u. read_chunk g (chunksize t) (frame_bytes t' @ rest) d = Inr (Some (d1, rest))
                  \<and> perform_decompress g (E\<lparr>decompress := f\<rparr>) d1 = Inr u
                  \<and> rd (cmp_seg u) 0 (len_cmp u) = X)" by blast
  show ?thesis
    apply (rule exI[of _ t'], rule exI[of _ S], rule exI[of _ M], rule exI[of _ flag])
    apply (intro conjI)
    apply (rule pc)
    apply (simp add: fr n_def T_def cb)
    apply (rule lS)
    apply (rule lM)
    apply (rule b0)
    apply (rule b1)
    apply (rule b7)
    apply (rule dec)
    done
qed


lemma opts_crypt_sel:
  "enable_rabin_scan opts_crypt = False" "enable_fixed_scan opts_crypt = False"
  "enable_rabin_global opts_crypt = False" "enable_delta2_encode opts_crypt = False"
  "lzp_preprocess opts_crypt = False" "encrypt_type opts_crypt = 1" "adapt_mode opts_crypt = False"
  "cksum_bytes opts_crypt = 0" "mac_bytes opts_crypt = 1"
  by (simp_all add: opts_crypt_def)

lemma toy_crypt_sel:
  "hmac toy = (\<lambda>x. [foldr (XOR) x 0])" "crypto_buf toy = (\<lambda>x i. (0, map (\<lambda>b. b XOR 90) x))"
  by (simp_all add: toy_def)

lemma mac_codec_toy: "mac_bytes g = 1 \<Longrightarrow> mac_codec g toy"
proof -
  assume c: "mac_bytes g = 1"
  have "rd (rev (rd (rev x) 0 1)) 0 1 = x" if "length x = 1" for x :: bytes
  proof -
    from that obtain a where "x = [a]" by (cases x) auto
    then show ?thesis by (simp add: rd_def)
  qed
  then show ?thesis by (simp add: mac_codec_def toy_sel toy_crypt_sel c)
qed

lemma crypto_inverts_toy: "crypto_inverts toy x i"
proof -
  have "map ((\<lambda>b. b XOR 90) \<circ> (\<lambda>b. b XOR 90)) x = x" for x :: bytes
    by (induction x) (simp_all add: xor.assoc)
  then show ?thesis by (simp add: crypto_inverts_def toy_crypt_sel)
qed

section \<open>The dedup index\<close>







section \<open>The single chunk of a small file\<close>

lemma authenticate_outside:
  assumes fit: "mac_fits g E" and off: "hdr_off g \<le> off"
  shows "rd (authenticate g E s tlen hsz type) off n = rd s off n"
proof (cases "encrypt_type g = 0")
  case True
  with fit have m: "4 \<le> mac_bytes g" by (simp add: mac_fits_def)
  show ?thesis
    unfolding authenticate_def Let_def using True m off
    by (simp add: rd_blit_simps hdr_off_def COMPRESSED_CHUNKSZ_def)
next
  case False
  with fit have m: "\<And>x. length (hmac E x) \<le> mac_bytes g" by (simp add: mac_fits_def)
  have "COMPRESSED_CHUNKSZ + cksum_bytes g + length (hmac E x) \<le> off" for x
    using m[of x] off by (simp add: hdr_off_def)
  then show ?thesis
    unfolding authenticate_def Let_def using False off
    by (simp add: rd_blit_simps hdr_off_def)
qed

lemma frame_chunk_trailer:
  assumes fc: "frame_chunk g E t rbytes0 rv0 csz = Inr t'" and fit: "mac_fits g E"
  shows "len_cmp t' = hdr_off g + 1 + payload_len t rbytes0 rv0 csz + length (trailer_of t)"
    and "rd (cmp_seg t') (hdr_off g + 1 + payload_len t rbytes0 rv0 csz) (length (trailer_of t))
          = trailer_of t"
proof -
  let ?L = "payload_len t rbytes0 rv0 csz"
  let ?tl = "hdr_off g + 1 + ?L"
  from fc obtain s4 f hs ty where
    t': "t' = t\<lparr>cmp_seg := authenticate g E
                   (blit (if rbytes t < chunksize t
                          then blit (blit s4 ?tl (htonll (rbytes t))) 0 (htonll (?L + 8))
                          else s4) (hdr_off g) [f])
                   (?tl + length (trailer_of t)) hs ty,
               len_cmp := ?tl + length (trailer_of t)\<rparr>"
    unfolding frame_chunk_def Let_def payload_len_def fallback_of_def trailer_of_def
    by (auto split: sum.splits if_splits prod.splits
        simp: hdr_off_def COMPRESSED_CHUNKSZ_def CHUNK_FLAG_SZ_def ORIGINAL_CHUNKSZ_def add_ac)
  show "len_cmp t' = ?tl + length (trailer_of t)" unfolding t' by simp
  have o: "hdr_off g \<le> ?tl" by simp
  have o8: "0 + length (htonll (?L + 8)) \<le> ?tl" by (simp add: hdr_off_def COMPRESSED_CHUNKSZ_def)
  have b: "rd (blit (blit s4 ?tl (htonll (rbytes t))) 0 (htonll (?L + 8))) ?tl 8 = htonll (rbytes t)"
    unfolding rd_blit_after[OF o8] by (rule rd_blit_len) simp
  show "rd (cmp_seg t') ?tl (length (trailer_of t)) = trailer_of t"
    unfolding t' using authenticate_outside[OF fit o] b
    by (simp add: trailer_of_def rd_blit_simps)
qed


lemma dedup_stage_keeps:
  assumes "dedup_stage g E t = (t1, isz)"
  shows "chunksize t1 = chunksize t"
    and "\<not> (dedup_on g \<and> rctx_valid t1) \<Longrightarrow> rbytes t1 = rbytes t"
  using assms
  by (auto simp: dedup_stage_def Let_def split: if_splits prod.splits)

lemma compress_index_keeps:
  assumes "compress_index g E t isz = (t1, isc)"
  shows "chunksize t1 = chunksize t" "rbytes t1 = rbytes t" "rctx_valid t1 = rctx_valid t"
  using assms
  by (auto simp: compress_index_def Let_def split: if_splits prod.splits)

lemma compress_stage_keeps:
  assumes "compress_stage g E t isz = (t2, rv, csz)"
  shows "chunksize t2 = chunksize t" "rbytes t2 = rbytes t" "rctx_valid t2 = rctx_valid t"
proof -
  have "chunksize t2 = chunksize t \<and> rbytes t2 = rbytes t \<and> rctx_valid t2 = rctx_valid t"
  proof (cases "dedup_on g \<and> rctx_valid t")
    case True
    obtain t1 isc where ci: "compress_index g E t isz = (t1, isc)"
      by (cases "compress_index g E t isz") auto
    note K = compress_index_keeps[OF ci]
    from assms show ?thesis
      unfolding compress_stage_def Let_def if_P[OF True] ci prod.case using K
      by (auto split: prod.splits)
  next
    case False
    from assms show ?thesis
      unfolding compress_stage_def Let_def if_not_P[OF False]
      by (auto split: prod.splits)
  qed
  then show "chunksize t2 = chunksize t" "rbytes t2 = rbytes t" "rctx_valid t2 = rctx_valid t"
    by simp_all
qed

lemma stage_out_keeps:
  assumes so: "stage_out g E t = (t2, rv, csz)"
  shows "chunksize t2 = chunksize t"
    and "\<not> (dedup_on g \<and> rctx_valid t2) \<Longrightarrow> rbytes t2 = rbytes t"
proof -
  obtain t1 isz where ds: "dedup_stage g E t = (t1, isz)" by (cases "dedup_stage g E t") auto
  from so have cs: "compress_stage g E t1 isz = (t2, rv, csz)"
    unfolding stage_out_def ds prod.case .
  note D = dedup_stage_keeps[OF ds]
  note C = compress_stage_keeps[OF cs]
  show "chunksize t2 = chunksize t" using D(1) C(1) by simp
  show "rbytes t2 = rbytes t" if "\<not> (dedup_on g \<and> rctx_valid t2)"
    using D(2) C(2) C(3) that by simp
qed

lemma and_or_absorb: "(a OR b OR c) AND b = b" for a b c :: int
  by (rule bit_eqI) (auto simp: bit_and_iff bit_or_iff)

lemma and_or_absorb2: "(b OR c) AND b = b" for b c :: int
  by (rule bit_eqI) (auto simp: bit_and_iff bit_or_iff)

section \<open>A preprocessed chunk that falls back to raw\<close>

lemma opts_Lcrypt_sel:
  "enable_rabin_scan opts_Lcrypt = False" "enable_fixed_scan opts_Lcrypt = False"
  "enable_rabin_global opts_Lcrypt = False" "enable_delta2_encode opts_Lcrypt = False"
  "lzp_preprocess opts_Lcrypt = True" "encrypt_type opts_Lcrypt = 1" "adapt_mode opts_Lcrypt = False"
  "cksum_bytes opts_Lcrypt = 0" "mac_bytes opts_Lcrypt = 1"
  by (simp_all add: opts_Lcrypt_def)

lemma stage_out_7756:
  "\<exists>seg. stage_out opts_LP toy (slot_of [7, 7, 5, 6] 4)
      = (slot_of [7, 7, 5, 6] 4\<lparr>checksum := [25], cmp_seg := seg, uncompressed_chunk := [7, 5, 6, 6]\<rparr>, 0, 4)"
proof -
  have d1: "dedup_stage opts_LP toy (slot_of [7, 7, 5, 6] 4) = (slot_of [7, 7, 5, 6] 4\<lparr>checksum := [25]\<rparr>, 0)"
    by (simp add: dedup_stage_def dedup_on_def toy_sel opts_LP_sel slot_sel rd_def)
  have l: "lzp_stage opts_LP toy [7, 7, 5, 6] 0 4 [] 14 4 6
      = Inr (1, 3, [7, 5, 6, 6], replicate 14 0 @ [7, 5, 6])"
    by (simp add: lzp_stage_def toy_eval buf_eval PREPROC_TYPE_LZP_def)
  have d: "delta2_stage opts_LP toy 50 0 14 (1, 3, [7, 5, 6, 6], replicate 14 0 @ [7, 5, 6])
      = (1, 3, [7, 5, 6, 6], replicate 14 0 @ [7, 5, 6])"
    by (simp add: delta2_stage_def toy_eval buf_eval)
  have c: "rle_compress (rd [7, 5, 6, 6] 0 3) 3 6 0 = (- 1, [])"
    by (simp add: rle_compress_def rd_def)
  from backend_stage_fallback[where cmp_func = rle_compress and src = "[7, 5, 6, 6]" and so = 0
      and n = 3 and lvl = 6 and chdr = 0 and r = "- 1" and out = "[]" and dof = 14 and t = 1
      and dst = "replicate 14 0 @ [7, 5, 6]", OF c]
  obtain seg where b: "backend_stage rle_compress 6 0 0 14 (1, 3, [7, 5, 6, 6], replicate 14 0 @ [7, 5, 6])
        = (0, [7, 5, 6, 6], seg, 4)"
    by auto
  have pp: "preproc_compress opts_LP toy rle_compress [7, 7, 5, 6] 0 4 [] 14 4 6 0 50
        = (0, [7, 5, 6, 6], seg, 4)"
    unfolding preproc_compress_def l sum.case d b ..
  have "stage_out opts_LP toy (slot_of [7, 7, 5, 6] 4)
      = (slot_of [7, 7, 5, 6] 4\<lparr>checksum := [25], cmp_seg := seg, uncompressed_chunk := [7, 5, 6, 6]\<rparr>, 0, 4)"
    unfolding stage_out_def d1 prod.case
    by (simp add: compress_stage_def compress_data_def dedup_on_def preproc_on_def opts_LP_sel toy_sel
        slot_sel len4 hdr_off_def COMPRESSED_CHUNKSZ_def CHUNK_FLAG_SZ_def pp del: list.size)
  then show ?thesis by blast
qed

lemma frame_7756:
  "\<exists>t'. perform_compress opts_LP toy (slot_of [7, 7, 5, 6] 4) = Inr t'
     \<and> frame_bytes t' = htonll 4 @ [25]
          @ htonl (expected_crc toy (htonll 4) [25] 4 []) @ [4] @ [7, 5, 6, 6]"
proof -
  from stage_out_7756 obtain seg where
    so: "stage_out opts_LP toy (slot_of [7, 7, 5, 6] 4)
      = (slot_of [7, 7, 5, 6] 4\<lparr>checksum := [25], cmp_seg := seg, uncompressed_chunk := [7, 5, 6, 6]\<rparr>, 0, 4)"
    by blast
  let ?t2 = "slot_of [7, 7, 5, 6] 4\<lparr>checksum := [25], cmp_seg := seg, uncompressed_chunk := [7, 5, 6, 6]\<rparr>"
  have rb: "rbytes (slot_of [7, 7, 5, 6] 4) = 4" by (simp add: slot_sel)
  have fb: "fallback_of 4 0 4" by (simp add: fallback_of_def)
  have pl: "payload_len ?t2 4 0 4 = 4" by (simp add: payload_len_def fb slot_sel)
  have lf: "len_field ?t2 4 0 4 = 4" by (simp add: len_field_def pl slot_sel)
  have cs: "cksum_slot opts_LP toy ?t2 = [25]"
    by (simp add: cksum_slot_def opts_LP_sel toy_sel rd_def)
  have fl: "flag_of opts_LP ?t2 4 0 4 = 4"
    unfolding flag_of_def using fb
    by (simp add: chunk_type_def dedup_on_def preproc_on_def opts_LP_sel slot_sel
        UNCOMPRESSED_def CHUNK_FLAG_PREPROC_def)
  have tr: "trailer_of ?t2 = []" by (simp add: trailer_of_def slot_sel)
  have po: "payload_of opts_LP ?t2 4 0 4 = [7, 5, 6, 6]"
    unfolding payload_of_def using fb
    by (simp add: dedup_on_def opts_LP_sel slot_sel rd_def)
  have ad: "adapt_mode opts_LP \<Longrightarrow> (0 :: int) < 8" by simp
  have cr: "chunk_crc opts_LP toy ?t2 4 0 4 = expected_crc toy (htonll 4) [25] 4 []"
    using chunk_crc_expected[where g = opts_LP and E = toy and t = ?t2 and rb = 4 and rv = 0
        and csz = 4, OF opts_LP_sel(9) ad]
    by (simp add: lf cs fl tr opts_LP_sel)
  from perform_compress_plain[OF opts_LP_sel(6) opts_LP_sel(9) so ad]
  show ?thesis unfolding rb lf cs fl tr po cr by simp
qed

lemma read_back_7756:
  "\<exists>d1. read_chunk opts_LP 4
           (htonll 4 @ [25] @ htonl (expected_crc toy (htonll 4) [25] 4 []) @ [4] @ [7, 5, 6, 6])
           (slot_of [] 4) = Inr (Some (d1, []))
       \<and> perform_decompress opts_LP toy d1 = Inl ChecksumFail"
proof -
  let ?M = "htonl (expected_crc toy (htonll 4) [25] 4 [])"
  have b7: "\<not> bit (4 :: byte) 7" "\<not> bit (4 :: byte) 0" "\<not> bit (4 :: byte) 1"
    by (simp_all add: bit_iff_odd)
  have Tb: "if bit (4 :: byte) 7 then length ([] :: bytes) = 8 else ([] :: bytes) = []"
    using b7 by simp
  have lS: "length ([25] :: bytes) = cksum_bytes opts_LP" by (simp add: opts_LP_sel)
  have lM: "length ?M = 4" by simp
  have nn: "4 = length ([7, 5, 6, 6] :: bytes) + length ([] :: bytes)" by simp
  have n64: "cksum_bytes opts_LP + 5 + 4 < (2 :: nat) ^ 64" by (simp add: opts_LP_sel)
  from read_chunk_frame[OF opts_LP_sel(9) lS lM nn _ _ n64 Tb, of 4 "[]" "slot_of [] 4"]
  obtain d1 where
    rc: "read_chunk opts_LP 4 (htonll 4 @ [25] @ ?M @ [4] @ [7, 5, 6, 6] @ [] @ []) (slot_of [] 4)
          = Inr (Some (d1, []))"
    and ld: "loaded opts_LP d1 [25] ?M 4 [7, 5, 6, 6] []" and be1: "len_cmp_be d1 = htonll 4"
    and c1: "chunksize d1 = chunksize (slot_of [] 4)" and m1: "cksum_mt d1 = cksum_mt (slot_of [] 4)"
    by auto
  have crc: "ntohl ?M = expected_crc toy (len_cmp_be d1) [25] 4 []"
    unfolding ntohl_htonl be1 ..
  have sz: "(if bit (4 :: byte) 7 then ntohll [] else chunksize d1) = length ([7, 5, 6, 6] :: bytes)"
    using b7 by (simp add: c1 slot_sel)
  have ck: "rd (compute_checksum toy [7, 5, 6, 6] (cksum_mt d1)) 0 (cksum_bytes opts_LP)
             \<noteq> rd (deserialize_checksum toy [25]) 0 (cksum_bytes opts_LP)"
    by (simp add: toy_sel opts_LP_sel rd_def)
  from perform_decompress_copy_mismatch[OF ld opts_LP_sel(9) opts_LP_sel(6) crc_chains_toy crc b7(2) b7(3) sz ck]
  have "perform_decompress opts_LP toy d1 = Inl ChecksumFail" .
  with rc show ?thesis by auto
qed

lemma stage_out_7756_crypt:
  "\<exists>seg. stage_out opts_Lcrypt toy (slot_of [7, 7, 5, 6] 4)
      = (slot_of [7, 7, 5, 6] 4\<lparr>cmp_seg := seg, uncompressed_chunk := [7, 5, 6, 6]\<rparr>, 0, 4)"
proof -
  have d1: "dedup_stage opts_Lcrypt toy (slot_of [7, 7, 5, 6] 4) = (slot_of [7, 7, 5, 6] 4, 0)"
    by (simp add: dedup_stage_def dedup_on_def opts_Lcrypt_sel)
  have l: "lzp_stage opts_Lcrypt toy [7, 7, 5, 6] 0 4 [] 10 4 6
      = Inr (1, 3, [7, 5, 6, 6], replicate 10 0 @ [7, 5, 6])"
    by (simp add: lzp_stage_def toy_eval opts_Lcrypt_sel buf_eval PREPROC_TYPE_LZP_def)
  have d: "delta2_stage opts_Lcrypt toy 50 0 10 (1, 3, [7, 5, 6, 6], replicate 10 0 @ [7, 5, 6])
      = (1, 3, [7, 5, 6, 6], replicate 10 0 @ [7, 5, 6])"
    by (simp add: delta2_stage_def opts_Lcrypt_sel)
  have c: "rle_compress (rd [7, 5, 6, 6] 0 3) 3 6 0 = (- 1, [])"
    by (simp add: rle_compress_def rd_def)
  from backend_stage_fallback[where cmp_func = rle_compress and src = "[7, 5, 6, 6]" and so = 0
      and n = 3 and lvl = 6 and chdr = 0 and r = "- 1" and out = "[]" and dof = 10 and t = 1
      and dst = "replicate 10 0 @ [7, 5, 6]", OF c]
  obtain seg where b: "backend_stage rle_compress 6 0 0 10 (1, 3, [7, 5, 6, 6], replicate 10 0 @ [7, 5, 6])
        = (0, [7, 5, 6, 6], seg, 4)"
    by auto
  have pp: "preproc_compress opts_Lcrypt toy rle_compress [7, 7, 5, 6] 0 4 [] 10 4 6 0 50
        = (0, [7, 5, 6, 6], seg, 4)"
    unfolding preproc_compress_def l sum.case d b ..
  have "stage_out opts_Lcrypt toy (slot_of [7, 7, 5, 6] 4)
      = (slot_of [7, 7, 5, 6] 4\<lparr>cmp_seg := seg, uncompressed_chunk := [7, 5, 6, 6]\<rparr>, 0, 4)"
    unfolding stage_out_def d1 prod.case
    by (simp add: compress_stage_def compress_data_def dedup_on_def preproc_on_def opts_Lcrypt_sel
        toy_sel slot_sel len4 hdr_off_def COMPRESSED_CHUNKSZ_def CHUNK_FLAG_SZ_def pp del: list.size)
  then show ?thesis by blast
qed

lemma silent_7756:
  "\<exists>t' d1 u. perform_compress opts_Lcrypt toy (slot_of [7, 7, 5, 6] 4) = Inr t'
     \<and> read_chunk opts_Lcrypt 4 (frame_bytes t') (slot_of [] 4) = Inr (Some (d1, []))
     \<and> perform_decompress opts_Lcrypt toy d1 = Inr u
     \<and> rd (cmp_seg u) 0 (len_cmp u) = [7, 5, 6, 6]"
proof -
  let ?t = "slot_of [7, 7, 5, 6] 4"
  from stage_out_7756_crypt obtain seg where
    so: "stage_out opts_Lcrypt toy ?t
      = (?t\<lparr>cmp_seg := seg, uncompressed_chunk := [7, 5, 6, 6]\<rparr>, 0, 4)" by blast
  let ?t2 = "?t\<lparr>cmp_seg := seg, uncompressed_chunk := [7, 5, 6, 6]\<rparr>"
  have enc: "encrypt_type opts_Lcrypt \<noteq> 0" by (simp add: opts_Lcrypt_sel)
  have rb: "rbytes ?t = 4" by (simp add: slot_sel)
  have fb: "fallback_of (rbytes ?t) 0 4" by (simp add: fallback_of_def slot_sel)
  have ub: "rd (uncompressed_chunk ?t2) 0 (rbytes ?t) = [7, 5, 6, 6]" by (simp add: slot_sel rd_def)
  have k: "rbytes ?t2 = rbytes ?t" "chunksize ?t2 = chunksize ?t" "chunk_id ?t2 = chunk_id ?t"
    by simp_all
  have ndv: "\<not> (dedup_on opts_Lcrypt \<and> rctx_valid ?t2)" by (simp add: dedup_on_def opts_Lcrypt_sel)
  have ad: "adapt_mode opts_Lcrypt \<Longrightarrow> (0 :: int) < 8" by simp
  have pos: "0 < rbytes ?t" and le: "rbytes ?t \<le> chunksize ?t" by (simp_all add: slot_sel)
  have big: "cksum_bytes opts_Lcrypt + mac_bytes opts_Lcrypt + rbytes ?t + 9 < 2 ^ 64"
    unfolding rb by (simp add: opts_Lcrypt_sel)
  from raw_round_trip_crypt[OF enc so fb ub k ndv ad pos le big mac_codec_toy[OF opts_Lcrypt_sel(9)]
      crypto_inverts_toy]
  obtain t' where pc: "perform_compress opts_Lcrypt toy ?t = Inr t'"
    and dec: "\<forall>d rest f. cksum_mt d = cksum_mt ?t \<and> chunksize d = chunksize ?t \<and> chunk_id d = chunk_id ?t \<longrightarrow>
               (\<exists>d1 u. read_chunk opts_Lcrypt (chunksize ?t) (frame_bytes t' @ rest) d = Inr (Some (d1, rest))
                  \<and> perform_decompress opts_Lcrypt (toy\<lparr>decompress := f\<rparr>) d1 = Inr u
                  \<and> rd (cmp_seg u) 0 (len_cmp u) = [7, 5, 6, 6])"
    by blast
  have dsl: "cksum_mt (slot_of [] 4) = cksum_mt ?t \<and> chunksize (slot_of [] 4) = chunksize ?t
      \<and> chunk_id (slot_of [] 4) = chunk_id ?t" by (simp add: slot_sel)
  have id: "toy\<lparr>decompress := decompress toy\<rparr> = toy" by simp
  from dec[rule_format, of "slot_of [] 4" "[]" "decompress toy", OF dsl]
  have "\<exists>d1 u. read_chunk opts_Lcrypt 4 (frame_bytes t') (slot_of [] 4) = Inr (Some (d1, []))
          \<and> perform_decompress opts_Lcrypt toy d1 = Inr u
          \<and> rd (cmp_seg u) 0 (len_cmp u) = [7, 5, 6, 6]"
    unfolding id by (simp add: slot_sel)
  with pc show ?thesis by blast
qed

section \<open>Claims\<close>

text \<open>
  C4. For every chunk on which at least one preprocessing stage (LZP or Delta2) was
  successfully applied, \<^verbatim>\<open>preproc_compress\<close> returns success (0) even if
  the backend compressor errors or does not shrink the data; the emitted type byte is
  the bitmask of the applied transforms with the \<^verbatim>\<open>PREPROC_COMPRESSED\<close> bit
  clear, and \<^verbatim>\<open>preproc_decompress\<close>, for any backend decompressor (it is not
  called), undoes exactly the applied transforms in reverse order, Delta2 first and
  then LZP, and gives back the chunk, provided each decoder inverts its encoder on
  this chunk.
\<close>

theorem preproc_fallback_inverts:
  assumes data: "rd src so srclen = data"
    and lz: "lzp_stage g E src so srclen dst dof dstlen lvl = Inr (t0, n0, src0, dst0)"
    and d2: "delta2_stage g E span so dof (t0, n0, src0, dst0) = (t1, n1, src1, dst1)"
    and some: "lzp_applied g E data lvl \<or> delta2_applied g E (rd src0 so n0) span"
    and be: "cmp_func (rd src1 so n1) n1 lvl chdr = (r, out)"
    and fail: "r < 0 \<or> n1 \<le> length out"
    and n1: "n1 < 2 ^ 64"
    and inv2: "delta2_applied g E (rd src0 so n0) span \<Longrightarrow>
                 \<exists>rv. rv \<noteq> - 1 \<and> delta2_decode E (rd src1 so n1) cap = (rv, rd src0 so n0)"
    and inv1: "lzp_applied g E data lvl \<Longrightarrow>
                 lzp_decompress E (rd src0 so n0) (lzp_hash_size E lvl) = (int srclen, data)"
  shows "\<exists>src' dst'.
      preproc_compress g E cmp_func src so srclen dst dof dstlen lvl chdr span = (0, src', dst', n1 + 1)
    \<and> hd (rd dst' dof 1) =
         (if lzp_applied g E data lvl then PREPROC_TYPE_LZP else 0) OR
         (if delta2_applied g E (rd src0 so n0) span then PREPROC_TYPE_DELTA2 else 0)
    \<and> hd (rd dst' dof 1) AND PREPROC_COMPRESSED = 0
    \<and> (\<forall>cb co ub uo dec_func chdr'. rd cb co (n1 + 1) = rd dst' dof (n1 + 1) \<longrightarrow>
          (\<exists>s2 d2. preproc_decompress E dec_func cb co (n1 + 1) ub uo cap lvl chdr' = (0, s2, d2, srclen)
                   \<and> rd d2 uo srclen = data))"
proof -
  let ?L = "lzp_applied g E data lvl"
  let ?D = "delta2_applied g E (rd src0 so n0) span"
  have len: "length data = srclen" using data by (metis length_rd)
  from lzp_stage_Inr[OF lz] data
  have c0: "(?L \<and> t0 = PREPROC_TYPE_LZP) \<or> (\<not> ?L \<and> t0 = 0 \<and> n0 = srclen \<and> src0 = src)" by simp
  from delta2_stage_cases[OF d2]
  have c1: "(?D \<and> t1 = t0 OR PREPROC_TYPE_DELTA2) \<or> (\<not> ?D \<and> t1 = t0 \<and> n1 = n0 \<and> src1 = src0)"
    by blast
  have t1: "t1 = (if ?L then PREPROC_TYPE_LZP else 0) OR (if ?D then PREPROC_TYPE_DELTA2 else 0)"
    using c0 c1 by auto
  have pos: "t1 > 0" using t1 some by (auto simp: PREPROC_TYPE_LZP_def PREPROC_TYPE_DELTA2_def)
  have nc: "t1 AND PREPROC_COMPRESSED = 0"
    using t1 by (auto simp: PREPROC_TYPE_LZP_def PREPROC_TYPE_DELTA2_def PREPROC_COMPRESSED_def)
  have nf: "\<not> (r > - 1 \<and> length out < n1)" using fail by auto
  from backend_stage_fallback[where cmp_func=cmp_func and src=src1 and so=so and n=n1 and lvl=lvl
      and chdr=chdr and r=r and out=out and dof=dof and t=t1 and dst=dst1, OF be nf] pos
  obtain dst' where bs: "backend_stage cmp_func lvl chdr so dof (t1, n1, src1, dst1) = (0, src1, dst', n1 + 1)"
    and pl: "rd dst' dof (n1 + 1) = t1 # rd src1 so n1" by auto
  have pc: "preproc_compress g E cmp_func src so srclen dst dof dstlen lvl chdr span = (0, src1, dst', n1 + 1)"
    by (simp add: preproc_compress_def lz d2 bs)
  from rd_ConsD[OF pl] have hd1: "hd (rd dst' dof 1) = t1" by simp
  have dec: "\<exists>s2 d2. preproc_decompress E dec_func cb co (n1 + 1) ub uo cap lvl chdr' = (0, s2, d2, srclen)
                   \<and> rd d2 uo srclen = data"
    if eq: "rd cb co (n1 + 1) = rd dst' dof (n1 + 1)" for cb co ub uo dec_func chdr'
  proof -
    from eq pl have p: "rd cb co (n1 + 1) = t1 # rd src1 so n1" by simp
    from unwrap_backend_plain[OF p nc n1]
    have ub: "unwrap_backend dec_func cb co (n1 + 1) ub uo cap lvl chdr' = Inr (cb, co + 1, n1, ub, cap)"
      and h: "hd (rd cb co 1) = t1" and d: "rd cb (co + 1) n1 = rd src1 so n1" by auto
    have flags: "\<not> (t1 AND (PREPROC_COMPRESSED OR PREPROC_TYPE_DELTA2 OR PREPROC_TYPE_LZP) = 0 \<and> t1 > 0)"
      using t1 some by (auto simp: PREPROC_TYPE_LZP_def PREPROC_TYPE_DELTA2_def PREPROC_COMPRESSED_def)
    show ?thesis
    proof (cases ?D)
      case True
      with inv2 obtain rv where rv: "rv \<noteq> - 1"
        and de: "delta2_decode E (rd src1 so n1) cap = (rv, rd src0 so n0)" by blast
      have d2bit: "t1 AND PREPROC_TYPE_DELTA2 \<noteq> 0"
        using t1 True by (auto simp: PREPROC_TYPE_LZP_def PREPROC_TYPE_DELTA2_def)
      define u1 where "u1 = blit ub uo (rd src0 so n0)"
      define c1 where "c1 = blit cb (co + 1) (rd u1 uo n0)"
      have u1r: "rd u1 uo n0 = rd src0 so n0"
        unfolding u1_def using rd_blit_same[of ub uo "rd src0 so n0"] by simp
      have ud: "unwrap_delta2 E t1 uo cap (cb, co + 1, n1, ub, cap) = Inr (c1, co + 1, n0, u1, n0)"
        using d2bit rv de d by (simp add: unwrap_delta2_def Let_def u1_def c1_def rd_blit_len)
      have c1r: "rd c1 (co + 1) n0 = rd src0 so n0"
        unfolding c1_def u1r using rd_blit_same[of cb "co + 1" "rd src0 so n0"] by simp
      show ?thesis
      proof (cases ?L)
        case L: True
        have lbit: "t1 AND PREPROC_TYPE_LZP \<noteq> 0"
          using t1 L True by (auto simp: PREPROC_TYPE_LZP_def PREPROC_TYPE_DELTA2_def)
        have "unwrap_lzp E t1 uo lvl (c1, co + 1, n0, u1, n0) = (0, c1, blit u1 uo data, srclen)"
          using lbit inv1[OF L] c1r flags by (simp add: unwrap_lzp_def)
        moreover have "rd (blit u1 uo data) uo srclen = data"
          using rd_blit_same[of u1 uo data] len by simp
        ultimately show ?thesis
          unfolding preproc_decompress_def Let_def ub h sum.case ud by blast
      next
        case L: False
        have lbit: "t1 AND PREPROC_TYPE_LZP = 0"
          using t1 L True by (auto simp: PREPROC_TYPE_LZP_def PREPROC_TYPE_DELTA2_def)
        from c0 L have n0: "n0 = srclen" and s0: "src0 = src" by auto
        have "unwrap_lzp E t1 uo lvl (c1, co + 1, n0, u1, n0) = (0, c1, u1, srclen)"
          using lbit flags n0 by (simp add: unwrap_lzp_def)
        moreover have "rd u1 uo srclen = data" using u1r n0 s0 data by simp
        ultimately show ?thesis
          unfolding preproc_decompress_def Let_def ub h sum.case ud by blast
      qed
    next
      case False
      with some have L: ?L by blast
      from c1 False have e: "t1 = t0" "n1 = n0" "src1 = src0" by auto
      have d2bit: "t1 AND PREPROC_TYPE_DELTA2 = 0"
        using t1 False L by (auto simp: PREPROC_TYPE_LZP_def PREPROC_TYPE_DELTA2_def)
      have lbit: "t1 AND PREPROC_TYPE_LZP \<noteq> 0"
        using t1 L False by (auto simp: PREPROC_TYPE_LZP_def PREPROC_TYPE_DELTA2_def)
      have ud: "unwrap_delta2 E t1 uo cap (cb, co + 1, n1, ub, cap) = Inr (cb, co + 1, n1, ub, cap)"
        using d2bit by (simp add: unwrap_delta2_def)
      have "unwrap_lzp E t1 uo lvl (cb, co + 1, n1, ub, cap) = (0, cb, blit ub uo data, srclen)"
        using lbit inv1[OF L] d e flags by (simp add: unwrap_lzp_def)
      moreover have "rd (blit ub uo data) uo srclen = data"
        using rd_blit_same[of ub uo data] len by simp
      ultimately show ?thesis
        unfolding preproc_decompress_def Let_def ub h sum.case ud by blast
    qed
  qed
  from pc hd1 t1 nc dec show ?thesis by blast
qed

theorem preproc_fallback_inverts_witness:
  "lzp_applied opts_LP toy [9, 9, 5, 6] 6 \<and> delta2_applied opts_LP toy [9, 5, 6] 50
   \<and> fst (rle_compress [5, 6] 2 6 0) < 0
   \<and> (\<exists>src' dst'.
         preproc_compress opts_LP toy rle_compress [9, 9, 5, 6] 0 4 [] 0 4 6 0 50 = (0, src', dst', 3)
       \<and> hd (rd dst' 0 1) = 3
       \<and> (\<exists>s2 d2. preproc_decompress toy rle_decompress dst' 0 3 [] 0 4 6 0 = (0, s2, d2, 4)
                    \<and> rd d2 0 4 = [9, 9, 5, 6]))"
proof -
  have data: "rd [9, 9, 5, 6] 0 4 = [9, 9, 5, 6 :: byte]" by (simp add: buf_eval)
  have r0: "rd [9, 5, 6, 6] 0 3 = [9, 5, 6 :: byte]" by (simp add: buf_eval)
  have r1: "rd [5, 6, 6, 6] 0 2 = [5, 6 :: byte]" by (simp add: buf_eval)
  have L: "lzp_applied opts_LP toy [9, 9, 5, 6] 6" by (simp add: lzp_applied_def toy_eval)
  have D: "delta2_applied opts_LP toy [9, 5, 6] 50" by (simp add: delta2_applied_def toy_eval)
  have be: "rle_compress (rd [5, 6, 6, 6] 0 2) 2 6 0 = (- 1, [])" by (simp add: r1 rle_compress_def)
  have inv2: "\<exists>rv. rv \<noteq> - 1 \<and> delta2_decode toy (rd [5, 6, 6, 6] 0 2) 4 = (rv, rd [9, 5, 6, 6] 0 3)"
    by (simp add: r0 r1 toy_eval)
  have inv1: "lzp_decompress toy (rd [9, 5, 6, 6] 0 3) (lzp_hash_size toy 6) = (int 4, [9, 9, 5, 6])"
    by (simp add: r0 toy_eval)
  from preproc_fallback_inverts[where cmp_func=rle_compress and cap=4, OF data t1 t2 _ be _ _ inv2 inv1] L
  obtain src' dst' where pc: "preproc_compress opts_LP toy rle_compress [9, 9, 5, 6] 0 4 [] 0 4 6 0 50 = (0, src', dst', 2 + 1)"
    and h: "hd (rd dst' 0 1) = (if lzp_applied opts_LP toy [9, 9, 5, 6] 6 then PREPROC_TYPE_LZP else 0) OR
         (if delta2_applied opts_LP toy (rd [9, 5, 6, 6] 0 3) 50 then PREPROC_TYPE_DELTA2 else 0)"
    and dec: "\<forall>cb co ub uo dec_func chdr'. rd cb co (2 + 1) = rd dst' 0 (2 + 1) \<longrightarrow>
          (\<exists>s2 d2. preproc_decompress toy dec_func cb co (2 + 1) ub uo 4 6 chdr' = (0, s2, d2, 4)
                   \<and> rd d2 uo 4 = [9, 9, 5, 6])"
    by auto
  from dec have "\<exists>s2 d2. preproc_decompress toy rle_decompress dst' 0 (2 + 1) [] 0 4 6 0 = (0, s2, d2, 4)
                   \<and> rd d2 0 4 = [9, 9, 5, 6]" by blast
  moreover have "hd (rd dst' 0 1) = 3"
    using h L D by (simp add: r0 PREPROC_TYPE_LZP_def PREPROC_TYPE_DELTA2_def)
  moreover have "fst (rle_compress [5, 6] 2 6 0) < 0" by (simp add: rle_compress_def)
  ultimately show ?thesis using L D pc by auto
qed

text \<open>
  C10. The payload \<^verbatim>\<open>preproc_compress\<close> produces starts with the type byte.
  When the backend compressed the data, the \<^verbatim>\<open>PREPROC_COMPRESSED\<close> bit is set,
  the next 8 bytes are the big-endian length before compression and the backend's
  output follows; \<^verbatim>\<open>preproc_decompress\<close> then reads that length, calls the
  backend on exactly that output with that length, returns the backend's result when
  it is negative and otherwise goes on with what the backend put out. Otherwise the
  bit is clear and the preprocessed data begins right after the type byte;
  \<^verbatim>\<open>preproc_decompress\<close> then reads no length, calls no backend, keeps the
  caller's \<^verbatim>\<open>*dstlen\<close> and goes on with the bytes after the type byte.
\<close>

theorem preproc_payload_layout:
  assumes lz: "lzp_stage g E src so srclen dst dof dstlen lvl = Inr st0"
    and d2: "delta2_stage g E span so dof st0 = (t1, n1, src1, dst1)"
    and be: "cmp_func (rd src1 so n1) n1 lvl chdr = (r, out)"
    and n1: "n1 + 9 < 2 ^ 64"
  shows "\<exists>res src' dst' dstlen' payload.
      preproc_compress g E cmp_func src so srclen dst dof dstlen lvl chdr span = (res, src', dst', dstlen')
    \<and> payload = rd dst' dof dstlen'
    \<and> (if r > - 1 \<and> length out < n1
        then payload = (t1 OR PREPROC_COMPRESSED) # htonll n1 @ out
           \<and> hd payload AND PREPROC_COMPRESSED \<noteq> 0
           \<and> ntohll (rd dst' (dof + 1) 8) = n1
           \<and> (\<forall>cb co ub uo cap dec_func chdr'. rd cb co dstlen' = payload \<longrightarrow>
                 unwrap_backend dec_func cb co dstlen' ub uo cap lvl chdr' =
                   (case dec_func out n1 lvl chdr' of (result, o2) \<Rightarrow>
                      if result < 0 then Inl (result, cb, blit ub uo o2, length o2)
                      else Inr (blit cb co o2, co, length o2, blit ub uo o2, length o2))
               \<and> preproc_decompress E dec_func cb co dstlen' ub uo cap lvl chdr' =
                   (case dec_func out n1 lvl chdr' of (result, o2) \<Rightarrow>
                      if result < 0 then (result, cb, blit ub uo o2, length o2)
                      else (case unwrap_delta2 E (hd payload) uo cap
                                   (blit cb co o2, co, length o2, blit ub uo o2, length o2) of
                              Inl e \<Rightarrow> e
                            | Inr st' \<Rightarrow> unwrap_lzp E (hd payload) uo lvl st')))
        else payload = t1 # rd src1 so n1
           \<and> hd payload AND PREPROC_COMPRESSED = 0
           \<and> (\<forall>cb co ub uo cap dec_func chdr'. rd cb co dstlen' = payload \<longrightarrow>
                 unwrap_backend dec_func cb co dstlen' ub uo cap lvl chdr' = Inr (cb, co + 1, n1, ub, cap)
               \<and> preproc_decompress E dec_func cb co dstlen' ub uo cap lvl chdr' =
                   (case unwrap_delta2 E (hd payload) uo cap (cb, co + 1, n1, ub, cap) of
                      Inl e \<Rightarrow> e
                    | Inr st' \<Rightarrow> unwrap_lzp E (hd payload) uo lvl st')))"
proof -
  have low: "t1 AND PREPROC_COMPRESSED = 0" using lz d2 by (rule stage_type_low)
  have pc: "preproc_compress g E cmp_func src so srclen dst dof dstlen lvl chdr span
            = backend_stage cmp_func lvl chdr so dof (t1, n1, src1, dst1)"
    by (simp add: preproc_compress_def lz d2)
  have n1': "n1 < 2 ^ 64" using n1 by simp
  show ?thesis
  proof (cases "r > - 1 \<and> length out < n1")
    case True
    from backend_stage_compressed[where cmp_func=cmp_func and src=src1 and so=so and n=n1 and lvl=lvl
        and chdr=chdr and r=r and out=out and dof=dof and t=t1 and dst=dst1, OF be] True
    obtain dst' where bs: "backend_stage cmp_func lvl chdr so dof (t1, n1, src1, dst1) = (r, src1, dst', length out + 9)"
      and pl: "rd dst' dof (length out + 9) = (t1 OR PREPROC_COMPRESSED) # htonll n1 @ out" by auto
    have "(t1 OR PREPROC_COMPRESSED) AND PREPROC_COMPRESSED = PREPROC_COMPRESSED"
      by (rule bit_eqI) (auto simp: bit_and_iff bit_or_iff)
    then have hb: "(t1 OR PREPROC_COMPRESSED) AND PREPROC_COMPRESSED \<noteq> 0"
      by (simp add: PREPROC_COMPRESSED_def)
    have lo: "length out + 9 < 2 ^ 64" using True n1 by simp
    have l8: "ntohll (rd dst' (dof + 1) 8) = n1"
    proof -
      have p': "rd dst' dof ((length out + 8) + 1) = (t1 OR PREPROC_COMPRESSED) # (htonll n1 @ out)"
        using pl by (simp add: add.commute)
      from rd_ConsD[OF p'] have r: "rd dst' (dof + 1) (length out + 8) = htonll n1 @ out" by auto
      have "rd dst' (dof + 1) (8 + length out) = rd dst' (dof + 1) 8 @ rd dst' (dof + 1 + 8) (length out)" by (rule rd_split)
      with r have "rd dst' (dof + 1) 8 @ rd dst' (dof + 9) (length out) = htonll n1 @ out" by (simp add: add.commute)
      then have "rd dst' (dof + 1) 8 = htonll n1" by auto
      then show ?thesis by (simp add: ntohll_htonll[OF n1'])
    qed
    have hp: "hd (rd dst' dof (length out + 9)) = t1 OR PREPROC_COMPRESSED"
      unfolding pl by simp
    have ub: "unwrap_backend dec_func cb co (length out + 9) ub uo cap lvl chdr' =
                   (case dec_func out n1 lvl chdr' of (result, o2) \<Rightarrow>
                      if result < 0 then Inl (result, cb, blit ub uo o2, length o2)
                      else Inr (blit cb co o2, co, length o2, blit ub uo o2, length o2))
               \<and> preproc_decompress E dec_func cb co (length out + 9) ub uo cap lvl chdr' =
                   (case dec_func out n1 lvl chdr' of (result, o2) \<Rightarrow>
                      if result < 0 then (result, cb, blit ub uo o2, length o2)
                      else (case unwrap_delta2 E (hd (rd dst' dof (length out + 9))) uo cap
                                   (blit cb co o2, co, length o2, blit ub uo o2, length o2) of
                              Inl e \<Rightarrow> e
                            | Inr st' \<Rightarrow> unwrap_lzp E (hd (rd dst' dof (length out + 9))) uo lvl st'))"
      if "rd cb co (length out + 9) = rd dst' dof (length out + 9)" for cb co ub uo cap dec_func chdr'
    proof -
      from that pl have p: "rd cb co (length out + 9) = (t1 OR PREPROC_COMPRESSED) # htonll n1 @ out" by simp
      have p': "rd cb co ((length out + 8) + 1) = (t1 OR PREPROC_COMPRESSED) # (htonll n1 @ out)"
        using p by (simp add: add.commute)
      from rd_ConsD[OF p'] have h: "hd (rd cb co 1) = t1 OR PREPROC_COMPRESSED" by simp
      note U = unwrap_backend_compressed[OF p hb n1' lo, of dec_func ub uo cap lvl chdr']
      show ?thesis
        unfolding preproc_decompress_def Let_def h hp U
        by (simp split: prod.splits)
    qed
    have A: "preproc_compress g E cmp_func src so srclen dst dof dstlen lvl chdr span
               = (r, src1, dst', length out + 9)" using pc bs by (simp only:)
    have C: "hd (rd dst' dof (length out + 9)) AND PREPROC_COMPRESSED \<noteq> 0"
      unfolding pl list.sel by (rule hb)
    show ?thesis
      unfolding if_P[OF True]
      apply (rule exI[of _ r], rule exI[of _ src1], rule exI[of _ dst'])
      apply (rule exI[of _ "length out + 9"], rule exI[of _ "rd dst' dof (length out + 9)"])
      apply (intro conjI allI impI)
            apply (rule A)
           apply (rule refl)
          apply (rule pl)
         apply (rule C)
        apply (rule l8)
       apply (erule ub[THEN conjunct1])
      apply (erule ub[THEN conjunct2])
      done
  next
    case False
    from backend_stage_fallback[where cmp_func=cmp_func and src=src1 and so=so and n=n1 and lvl=lvl
        and chdr=chdr and r=r and out=out and dof=dof and t=t1 and dst=dst1, OF be False]
    obtain dst' where bs: "backend_stage cmp_func lvl chdr so dof (t1, n1, src1, dst1)
             = (if t1 > 0 then 0 else r, src1, dst', n1 + 1)"
      and pl: "rd dst' dof (n1 + 1) = t1 # rd src1 so n1" by auto
    have hp: "hd (rd dst' dof (n1 + 1)) = t1" unfolding pl by simp
    have ub: "unwrap_backend dec_func cb co (n1 + 1) ub uo cap lvl chdr' = Inr (cb, co + 1, n1, ub, cap)
               \<and> preproc_decompress E dec_func cb co (n1 + 1) ub uo cap lvl chdr' =
                   (case unwrap_delta2 E (hd (rd dst' dof (n1 + 1))) uo cap (cb, co + 1, n1, ub, cap) of
                      Inl e \<Rightarrow> e
                    | Inr st' \<Rightarrow> unwrap_lzp E (hd (rd dst' dof (n1 + 1))) uo lvl st')"
      if "rd cb co (n1 + 1) = rd dst' dof (n1 + 1)" for cb co ub uo cap dec_func chdr'
    proof -
      from that pl have p: "rd cb co (n1 + 1) = t1 # rd src1 so n1" by simp
      from unwrap_backend_plain[OF p low n1', of dec_func ub uo cap lvl chdr']
      have U: "unwrap_backend dec_func cb co (n1 + 1) ub uo cap lvl chdr' = Inr (cb, co + 1, n1, ub, cap)"
        and h: "hd (rd cb co 1) = t1" by auto
      show ?thesis
        unfolding preproc_decompress_def Let_def h hp U by simp
    qed
    have A: "preproc_compress g E cmp_func src so srclen dst dof dstlen lvl chdr span
               = (if t1 > 0 then 0 else r, src1, dst', n1 + 1)" using pc bs by (simp only:)
    have C: "hd (rd dst' dof (n1 + 1)) AND PREPROC_COMPRESSED = 0"
      unfolding pl list.sel by (rule low)
    show ?thesis
      unfolding if_not_P[OF False]
      apply (rule exI[of _ "if t1 > 0 then 0 else r"], rule exI[of _ src1], rule exI[of _ dst'])
      apply (rule exI[of _ "n1 + 1"], rule exI[of _ "rd dst' dof (n1 + 1)"])
      apply (intro conjI allI impI)
          apply (rule A)
         apply (rule refl)
        apply (rule pl)
       apply (rule C)
      apply (erule ub[THEN conjunct1])
      apply (erule ub[THEN conjunct2])
      done
  qed
qed


theorem preproc_payload_layout_witness:
  "\<exists>res src' dst'.
      preproc_compress opts_LP toy rle_compress [4, 4, 4, 4, 4, 4, 4, 4, 4, 4, 4, 4, 4] 0 13 [] 0 13 6 0 50
        = (res, src', dst', 11)
    \<and> rd dst' 0 11 = [129, 0, 0, 0, 0, 0, 0, 0, 12, 4, 12]
    \<and> ntohll (rd dst' 1 8) = 12
    \<and> unwrap_backend rle_decompress dst' 0 11 [] 0 13 6 0
        = Inr (blit dst' 0 [4, 4, 4, 4, 4, 4, 4, 4, 4, 4, 4, 4], 0, 12,
               [4, 4, 4, 4, 4, 4, 4, 4, 4, 4, 4, 4], 12)
    \<and> preproc_decompress toy rle_decompress dst' 0 11 [] 0 13 6 0
        = (0, blit dst' 0 [4, 4, 4, 4, 4, 4, 4, 4, 4, 4, 4, 4],
           [4, 4, 4, 4, 4, 4, 4, 4, 4, 4, 4, 4, 4], 13)"
proof -
  let ?D = "[4, 4, 4, 4, 4, 4, 4, 4, 4, 4, 4, 4, 4] :: bytes"
  let ?D' = "[4, 4, 4, 4, 4, 4, 4, 4, 4, 4, 4, 4] :: bytes"
  have lz: "lzp_stage opts_LP toy ?D 0 13 [] 0 13 6 = Inr (1, 12, ?D, ?D')"
    by (simp add: lzp_stage_def buf_eval toy_eval PREPROC_TYPE_LZP_def)
  have d2: "delta2_stage opts_LP toy 50 0 0 (1, 12, ?D, ?D') = (1, 12, ?D, ?D')"
    by (simp add: delta2_stage_def buf_eval toy_eval)
  have be: "rle_compress (rd ?D 0 12) 12 6 0 = (0, [4, 12])"
    by (simp add: rle_compress_def buf_eval)
  have n: "(12::nat) + 9 < 2 ^ 64" by simp
  have cond: "- 1 < (0::int) \<and> length [4, 12 :: byte] < 12" by simp
  note T = preproc_payload_layout[where cmp_func=rle_compress and chdr=0 and span=50 and r=0
      and out="[4, 12]", OF lz d2 be n, unfolded if_P[OF cond]]
  from T obtain res src' dst' dstlen' payload where
    pc: "preproc_compress opts_LP toy rle_compress ?D 0 13 [] 0 13 6 0 50 = (res, src', dst', dstlen')"
    and pay: "payload = rd dst' 0 dstlen'"
    and pl0: "payload = (1 OR PREPROC_COMPRESSED) # htonll 12 @ [4, 12]"
    and l8: "ntohll (rd dst' (0 + 1) 8) = 12"
    and ub0: "\<forall>cb co ub uo cap dec_func chdr'. rd cb co dstlen' = payload \<longrightarrow>
               unwrap_backend dec_func cb co dstlen' ub uo cap 6 chdr' =
                   (case dec_func [4, 12] 12 6 chdr' of (result, o2) \<Rightarrow>
                      if result < 0 then Inl (result, cb, blit ub uo o2, length o2)
                      else Inr (blit cb co o2, co, length o2, blit ub uo o2, length o2))
               \<and> preproc_decompress toy dec_func cb co dstlen' ub uo cap 6 chdr' =
                   (case dec_func [4, 12] 12 6 chdr' of (result, o2) \<Rightarrow>
                      if result < 0 then (result, cb, blit ub uo o2, length o2)
                      else (case unwrap_delta2 toy (hd payload) uo cap
                                   (blit cb co o2, co, length o2, blit ub uo o2, length o2) of
                              Inl e \<Rightarrow> e
                            | Inr st' \<Rightarrow> unwrap_lzp toy (hd payload) uo 6 st'))"
    by (elim exE conjE)
  have pl: "rd dst' 0 dstlen' = (1 OR PREPROC_COMPRESSED) # htonll 12 @ [4, 12]"
    using pay pl0 by (simp only:)
  have hp: "hd payload = 129" unfolding pl0 by (simp add: PREPROC_COMPRESSED_def)
  have u12: "unat (12 :: byte) = 12" by simp
  have r12: "replicate 12 (4 :: byte) = ?D'" by (simp add: numeral_eq_Suc)
  have rl: "rle_decompress [4, 12] 12 6 0 = (0, ?D')"
    unfolding rle_decompress_def list.case u12 r12 ..
  have b0: "blit [] 0 ?D' = ?D'" by (simp add: buf_eval)
  have len12: "length ?D' = 12" by simp
  from ub0[rule_format, OF pay[symmetric], of rle_decompress "[]" 0 13 0]
  have ub: "unwrap_backend rle_decompress dst' 0 dstlen' [] 0 13 6 0
        = Inr (blit dst' 0 ?D', 0, 12, ?D', 12)"
    and pd0: "preproc_decompress toy rle_decompress dst' 0 dstlen' [] 0 13 6 0
        = (case unwrap_delta2 toy 129 0 13 (blit dst' 0 ?D', 0, 12, ?D', 12) of
             Inl e \<Rightarrow> e | Inr st' \<Rightarrow> unwrap_lzp toy 129 0 6 st')"
    unfolding rl hp prod.case b0 len12 by simp_all
  have ud: "unwrap_delta2 toy 129 0 13 (blit dst' 0 ?D', 0, 12, ?D', 12)
        = Inr (blit dst' 0 ?D', 0, 12, ?D', 12)"
    by (simp add: unwrap_delta2_def PREPROC_TYPE_DELTA2_def)
  have rr: "rd (blit dst' 0 ?D') 0 12 = ?D'" by (rule rd_blit_len) simp
  have ul: "unwrap_lzp toy 129 0 6 (blit dst' 0 ?D', 0, 12, ?D', 12) = (0, blit dst' 0 ?D', ?D, 13)"
    unfolding unwrap_lzp_def prod.case rr
    by (simp add: toy_eval buf_eval PREPROC_TYPE_LZP_def PREPROC_TYPE_DELTA2_def PREPROC_COMPRESSED_def)
  have pd: "preproc_decompress toy rle_decompress dst' 0 dstlen' [] 0 13 6 0
        = (0, blit dst' 0 ?D', ?D, 13)"
    unfolding pd0 ud sum.case ul ..
  have "length (rd dst' 0 dstlen') = 11" unfolding pl by simp
  then have dl: "dstlen' = 11" by simp
  have pl': "rd dst' 0 11 = [129, 0, 0, 0, 0, 0, 0, 0, 12, 4, 12]"
    using pl unfolding dl by (simp add: PREPROC_COMPRESSED_def htonll_def byte_of_def)
  have l8': "ntohll (rd dst' 1 8) = 12" using l8 by (simp only: add_0)
  show ?thesis
    apply (rule exI[of _ res], rule exI[of _ src'], rule exI[of _ dst'])
    apply (intro conjI)
        apply (rule pc[unfolded dl])
       apply (rule pl')
      apply (rule l8')
     apply (rule ub[unfolded dl])
    apply (rule pd[unfolded dl])
    done
qed

text \<open>
  C7. With the compiled \<^verbatim>\<open>VERSION\<close> between 3 and 32767,
  \<^verbatim>\<open>start_decompress\<close> rejects every file whose 16-bit header version is
  greater than \<^verbatim>\<open>VERSION\<close> or less than \<^verbatim>\<open>VERSION - 3\<close>, and lets
  every version in the window from \<^verbatim>\<open>VERSION - 3\<close> to \<^verbatim>\<open>VERSION\<close>
  pass: for those the outcome of the header checks is that of the chunk-size and
  level checks alone.
\<close>

theorem version_gate:
  assumes v: "3 \<le> VERSION" "VERSION \<le> 32767"
  shows "(uint version > VERSION \<or> uint version < VERSION - 3 \<longrightarrow>
            (\<exists>e. header_checks VERSION ML ex version cs lvl = Inl e))
       \<and> (VERSION - 3 \<le> uint version \<and> uint version \<le> VERSION \<longrightarrow>
            header_checks VERSION ML ex version cs lvl =
              (if ex cs then Inl ChunkTooBig
               else if sint lvl > ML \<or> sint lvl < 0 then Inl BadLevel
               else Inr ()))"
proof (cases "uint version < 32768")
  case True
  then have "sint version = uint version" by (rule sint16_small)
  then show ?thesis by (auto simp: header_checks_def)
next
  case False
  then have "sint version < 0" using sint16_big[of version] by simp
  with False v show ?thesis by (auto simp: header_checks_def)
qed

theorem version_gate_witness:
  "header_checks 8 14 (\<lambda>c. False) 9 4096 6 = Inl NewerVersion
   \<and> header_checks 8 14 (\<lambda>c. False) 5 4096 6 = Inr ()
   \<and> header_checks 8 14 (\<lambda>c. False) 8 4096 6 = Inr ()
   \<and> header_checks 8 14 (\<lambda>c. False) 4 4096 6 = Inl UnsupportedVersion
   \<and> (\<exists>e. header_checks 8 14 (\<lambda>c. False) 65535 4096 6 = Inl e)"
proof -
  have a: "(3::int) \<le> 8" "(8::int) \<le> 32767" by simp_all
  have "\<exists>e. header_checks 8 14 (\<lambda>c. False) 65535 4096 6 = Inl e"
    using version_gate[OF a, of 65535 14 "\<lambda>c. False" 4096 6] by simp
  moreover have "header_checks 8 14 (\<lambda>c. False) 5 4096 6 = Inr ()"
    using version_gate[OF a, of 5 14 "\<lambda>c. False" 4096 6] by simp
  moreover have "header_checks 8 14 (\<lambda>c. False) 8 4096 6 = Inr ()"
    using version_gate[OF a, of 8 14 "\<lambda>c. False" 4096 6] by simp
  moreover have "header_checks 8 14 (\<lambda>c. False) 9 4096 6 = Inl NewerVersion"
    by (simp add: header_checks_def)
  moreover have "header_checks 8 14 (\<lambda>c. False) 4 4096 6 = Inl UnsupportedVersion"
    by (simp add: header_checks_def)
  ultimately show ?thesis by simp
qed

text \<open>
  C9. The flag byte that \<^verbatim>\<open>perform_compress\<close> writes into a chunk, at offset
  \<open>hdr_off\<close> of the frame, has the layout of the comment on lines 650-663: bit 7 is
  \<^verbatim>\<open>CHSIZE_MASK\<close> (the chunk is shorter than the chunk size), bits 6-4 are the
  adaptive sub-algorithm id (0 for a non-adaptive codec), bit 3 is never set, bit 2
  is \<^verbatim>\<open>CHUNK_FLAG_PREPROC\<close>, bit 1 is \<^verbatim>\<open>CHUNK_FLAG_DEDUP\<close>, and bit 0 is
  1 for a compressed and 0 for a raw chunk.
\<close>

theorem chunk_flag_layout:
  assumes pc: "perform_compress g E t = Inr t'"
    and so: "stage_out g E t = (t2, rv, csz)"
    and fit: "mac_fits g E"
    and ad: "adapt_mode g \<Longrightarrow> rv < 8"
  shows "hdr_off g < length (frame_bytes t') \<and>
     (\<forall>n. bit (frame_bytes t' ! hdr_off g) n \<longleftrightarrow>
        (n = 0 \<and> csz < rbytes t \<and> 0 \<le> rv)
      \<or> (n = 1 \<and> dedup_on g \<and> rctx_valid t2)
      \<or> (n = 2 \<and> preproc_on g)
      \<or> (adapt_mode g \<and> 4 \<le> n \<and> n < 7 \<and> 0 \<le> rv \<and> bit rv (n - 4))
      \<or> (n = 7 \<and> rbytes t2 < chunksize t2))"
proof -
  note F = frame_flag_byte[OF pc so fit]
  have fb: "(\<not> fallback_of (rbytes t) rv csz) = (csz < rbytes t \<and> 0 \<le> rv)"
    by (auto simp: fallback_of_def)
  have B: "bit (flag_of g t2 (rbytes t) rv csz) n \<longleftrightarrow>
        (n = 0 \<and> csz < rbytes t \<and> 0 \<le> rv)
      \<or> (n = 1 \<and> dedup_on g \<and> rctx_valid t2)
      \<or> (n = 2 \<and> preproc_on g)
      \<or> (adapt_mode g \<and> 4 \<le> n \<and> n < 7 \<and> 0 \<le> rv \<and> bit rv (n - 4))
      \<or> (n = 7 \<and> rbytes t2 < chunksize t2)" for n
    unfolding fb[symmetric] by (rule flag_of_bits[OF ad])
  show ?thesis
    unfolding F(2) using F(1) B by blast
qed

theorem chunk_flag_layout_witness:
  "\<exists>t'. perform_compress opts_LP toy (slot_of [9, 9, 5, 6] 4) = Inr t'
     \<and> hdr_off opts_LP < length (frame_bytes t')
     \<and> (\<forall>n. bit (frame_bytes t' ! hdr_off opts_LP) n \<longleftrightarrow> n = 0 \<or> n = 2)"
proof -
  from stage_out_9956 obtain seg where
    so: "stage_out opts_LP toy (slot_of [9, 9, 5, 6] 4)
      = (slot_of [9, 9, 5, 6] 4\<lparr>checksum := [29], cmp_seg := seg, uncompressed_chunk := [5, 6, 6, 6]\<rparr>, 0, 3)"
    by blast
  from frame_9956 obtain t' where pc: "perform_compress opts_LP toy (slot_of [9, 9, 5, 6] 4) = Inr t'"
    by blast
  have fit: "mac_fits opts_LP toy" by (simp add: mac_fits_def opts_LP_sel)
  have ad: "adapt_mode opts_LP \<Longrightarrow> (0::int) < 8" by simp
  from chunk_flag_layout[OF pc so fit ad]
  have "hdr_off opts_LP < length (frame_bytes t')
     \<and> (\<forall>n. bit (frame_bytes t' ! hdr_off opts_LP) n \<longleftrightarrow> n = 0 \<or> n = 2)"
    by (simp add: dedup_on_def preproc_on_def opts_LP_sel slot_sel)
  with pc show ?thesis by blast
qed

text \<open>
  C9, as the specification words it, puts \<^verbatim>\<open>CHUNK_FLAG_PREPROC\<close> on bit 3 and
  \<^verbatim>\<open>CHUNK_FLAG_DEDUP\<close> on bit 2. A preprocessed chunk written without dedup
  has the flag byte 5: bit 3 is clear and bit 2 is set.
\<close>

theorem chunk_flag_layout_counterexample:
  "\<exists>t'. perform_compress opts_LP toy (slot_of [9, 9, 5, 6] 4) = Inr t'
     \<and> frame_bytes t' ! hdr_off opts_LP = 5
     \<and> preproc_on opts_LP \<and> \<not> dedup_on opts_LP
     \<and> \<not> bit (5 :: byte) 3 \<and> bit (5 :: byte) 2"
proof -
  from frame_9956 obtain t' where pc: "perform_compress opts_LP toy (slot_of [9, 9, 5, 6] 4) = Inr t'"
    and fr: "frame_bytes t' = htonll 3 @ [29]
          @ htonl (lzma_crc32 toy (htonll 3 @ [29] @ replicate 4 0 @ [5]) 0) @ [5] @ [3, 5, 6]"
    by blast
  have "frame_bytes t' ! hdr_off opts_LP = 5"
    unfolding fr by (simp add: hdr_off_def opts_LP_sel COMPRESSED_CHUNKSZ_def nth_append)
  moreover have "\<not> bit (5 :: byte) 3" "bit (5 :: byte) 2"
    by (simp_all add: bit_iff_odd)
  ultimately show ?thesis using pc by (simp add: preproc_on_def dedup_on_def opts_LP_sel)
qed

text \<open>
  C2. In non-crypto mode the mac field that \<^verbatim>\<open>perform_compress\<close> writes is the
  CRC32 of the chunk header only: the length field, the serialised checksum, the
  zeroed mac slot, the flag byte and the optional trailing original size. It does not
  cover the payload. The CRC32 verification of \<^verbatim>\<open>perform_decompress\<close> fails
  exactly when the stored mac differs from the CRC32 of these fields as they were
  read, whatever the payload is; this needs a CRC32 that continues from a previous
  value.
\<close>

theorem header_crc_scope:
  assumes nc: "encrypt_type g = 0" and m: "mac_bytes g = 4"
    and so: "stage_out g E t = (t2, rv, csz)"
    and ad: "adapt_mode g \<Longrightarrow> rv < 8"
    and chain: "crc_chains E"
  shows "(\<exists>t' n S flag P T.
           perform_compress g E t = Inr t'
         \<and> frame_bytes t' = htonll n @ S @ htonl (expected_crc E (htonll n) S flag T) @ [flag] @ P @ T
         \<and> length S = cksum_bytes g \<and> (if bit flag 7 then T = htonll (rbytes t2) else T = []))
       \<and> (\<forall>d S' M' flag' P' T'. loaded g d S' M' flag' P' T' \<longrightarrow>
            (perform_decompress g E d = Inl CrcFail
               \<longleftrightarrow> ntohl M' \<noteq> expected_crc E (len_cmp_be d) S' flag' T'))"
  using header_crc_frame[OF nc m so ad] crc_fail_iff[OF _ m nc chain] by blast

theorem header_crc_scope_witness:
  "(\<exists>t' n S flag P T.
       perform_compress opts_plain toy (slot_of [1, 2, 3, 4] 4) = Inr t'
     \<and> frame_bytes t' = htonll n @ S @ htonl (expected_crc toy (htonll n) S flag T) @ [flag] @ P @ T
     \<and> length S = 1)
   \<and> ((perform_decompress opts_plain toy
          (slot_of [] 4\<lparr>compressed_chunk := [10, 1, 1, 1, 1, 0, 1, 2, 3, 4], rbytes := 10,
                         len_cmp := 4, len_cmp_be := htonll 4\<rparr>) = Inl CrcFail)
        = (ntohl [1, 1, 1, 1] \<noteq> expected_crc toy (htonll 4) [10] 0 []))"
proof -
  let ?t = "slot_of [1, 2, 3, 4] 4"
  let ?d = "slot_of [] 4\<lparr>compressed_chunk := [10, 1, 1, 1, 1, 0, 1, 2, 3, 4], rbytes := 10,
                         len_cmp := 4, len_cmp_be := htonll 4\<rparr>"
  have cd: "chunk_data opts_plain ?t = [1, 2, 3, 4]"
    by (simp add: chunk_data_def dedup_on_def opts_plain_sel slot_sel rd_def)
  have np: "\<not> preproc_on opts_plain" by (simp add: preproc_on_def opts_plain_sel)
  have nd: "dedup_on opts_plain \<Longrightarrow> \<not> fst (dedupe_compress toy (chunk_data opts_plain ?t))"
    by (simp add: dedup_on_def opts_plain_sel)
  have be: "compress toy (chunk_data opts_plain ?t) (rbytes ?t) (level ?t) 0 = (- 1, [])"
    unfolding cd by (simp add: toy_sel rle_compress_def slot_sel)
  from stage_out_raw[OF np nd be] obtain t2 where
    so: "stage_out opts_plain toy ?t = (t2, - 1, length ([] :: bytes))" by blast
  have ad: "adapt_mode opts_plain \<Longrightarrow> (- 1 :: int) < 8" by simp
  have ld: "loaded opts_plain ?d [10] [1, 1, 1, 1] 0 [1, 2, 3, 4] []"
    by (simp add: loaded_def opts_plain_sel rd_def)
  note H = header_crc_scope[OF opts_plain_sel(6) opts_plain_sel(9) so ad crc_chains_toy]
  have "\<exists>t' n S flag P T.
       perform_compress opts_plain toy ?t = Inr t'
     \<and> frame_bytes t' = htonll n @ S @ htonl (expected_crc toy (htonll n) S flag T) @ [flag] @ P @ T
     \<and> length S = cksum_bytes opts_plain"
    using H by (simp add: opts_plain_sel) blast
  then have A: "\<exists>t' n S flag P T.
       perform_compress opts_plain toy ?t = Inr t'
     \<and> frame_bytes t' = htonll n @ S @ htonl (expected_crc toy (htonll n) S flag T) @ [flag] @ P @ T
     \<and> length S = 1" unfolding opts_plain_sel .
  have "\<forall>d S' M' flag' P' T'. loaded opts_plain d S' M' flag' P' T' \<longrightarrow>
            (perform_decompress opts_plain toy d = Inl CrcFail
               \<longleftrightarrow> ntohl M' \<noteq> expected_crc toy (len_cmp_be d) S' flag' T')"
    using H by (simp add: opts_plain_sel)
  from this[rule_format, OF ld]
  have B: "(perform_decompress opts_plain toy ?d = Inl CrcFail)
        = (ntohl [1, 1, 1, 1] \<noteq> expected_crc toy (htonll 4) [10] 0 [])"
    by simp
  from A B show ?thesis by (rule conjI)
qed

text \<open>
  C2, as the specification words it, has the CRC32 cover the payload, so that a flipped
  payload bit fails the CRC32 verification. The chunk 1 2 3 4 is stored raw; with the
  last payload byte changed to 5 (one bit) the frame passes the CRC32 verification,
  is copied out, and is only rejected by the checksum of the data afterwards.
\<close>

theorem header_crc_scope_counterexample:
  "(\<exists>t'. perform_compress opts_plain toy (slot_of [1, 2, 3, 4] 4) = Inr t'
      \<and> frame_bytes t' = htonll 4 @ [10]
           @ htonl (expected_crc toy (htonll 4) [10] 0 []) @ [0] @ [1, 2, 3, 4])
   \<and> (\<exists>d1. read_chunk opts_plain 4
           (htonll 4 @ [10] @ htonl (expected_crc toy (htonll 4) [10] 0 []) @ [0] @ [1, 2, 3, 5])
           (slot_of [] 4) = Inr (Some (d1, []))
         \<and> perform_decompress opts_plain toy d1 = Inl ChecksumFail)
   \<and> (4 :: byte) XOR 5 = 1 \<and> ChecksumFail \<noteq> CrcFail"
  using frame_1234 loaded_1235 by simp

text \<open>
  C5. For every chunk on which no preprocessing stage was applied (LZP and Delta2 are
  disabled or neither took) and which dedup did not reduce, and on which the backend
  compressor errors or produces output of length at least the input length,
  \<^verbatim>\<open>perform_compress\<close> marks the chunk \<^verbatim>\<open>UNCOMPRESSED\<close> (bit 0 of the
  flag byte clear), writes the chunk length into the length field (plus 8 when the
  chunk is shorter than the chunk size and its length is appended) and stores the
  chunk bytes verbatim, encrypted in crypto mode; and \<^verbatim>\<open>perform_decompress\<close>,
  whatever the backend decompressor is, gives the chunk back from the frame that was
  read. In non-crypto mode this needs a CRC32 that can be continued and a checksum
  serialisation that is undone by its inverse; in crypto mode an HMAC that fits the
  mac slot with such a serialisation, and a cipher that undoes itself on the chunk.
\<close>

theorem uncompressed_fallback:
  assumes na1: "\<not> lzp_applied g E (chunk_data g t) (level t)"
    and na2: "\<not> delta2_applied g E (chunk_data g t) (delta2_span t)"
    and nd: "dedup_on g \<Longrightarrow> \<not> fst (dedupe_compress E (chunk_data g t))"
    and be: "compress E (chunk_data g t) (rbytes t) (level t) 0 = (rv, out)"
    and fail: "rv < 0 \<or> length out \<ge> rbytes t"
    and ad: "adapt_mode g \<Longrightarrow> rv < 8"
    and pos: "0 < rbytes t" and le: "rbytes t \<le> chunksize t"
    and big: "cksum_bytes g + mac_bytes g + rbytes t + 9 < 2 ^ 64"
    and plain: "encrypt_type g = 0 \<Longrightarrow> mac_bytes g = 4 \<and> crc_chains E \<and> cksum_codec g E"
    and crypt: "encrypt_type g \<noteq> 0 \<Longrightarrow>
                  mac_codec g E \<and> crypto_inverts E (chunk_data g t) (chunk_id t)"
  shows "\<exists>t' S M flag.
           perform_compress g E t = Inr t'
         \<and> frame_bytes t' = htonll (rbytes t + (if rbytes t < chunksize t then 8 else 0)) @ S @ M
               @ [flag]
               @ (if encrypt_type g = 0 then chunk_data g t
                  else snd (crypto_buf E (chunk_data g t) (chunk_id t)))
               @ (if rbytes t < chunksize t then htonll (rbytes t) else [])
         \<and> length S = cksum_bytes g \<and> length M = mac_bytes g
         \<and> \<not> bit flag 0 \<and> \<not> bit flag 1 \<and> (bit flag 7 \<longleftrightarrow> rbytes t < chunksize t)
         \<and> (\<forall>d rest f. cksum_mt d = cksum_mt t \<and> chunksize d = chunksize t \<and> chunk_id d = chunk_id t \<longrightarrow>
               (\<exists>d1 u. read_chunk g (chunksize t) (frame_bytes t' @ rest) d = Inr (Some (d1, rest))
                  \<and> perform_decompress g (E\<lparr>decompress := f\<rparr>) d1 = Inr u
                  \<and> rd (cmp_seg u) 0 (len_cmp u) = chunk_data g t))"
proof -
  from stage_out_unapplied[OF na1 na2 nd be fail] obtain t2 rv' csz' where
    so: "stage_out g E t = (t2, rv', csz')"
    and fb: "fallback_of (rbytes t) rv' csz'" and rvs: "rv' = rv \<or> rv' = - 1"
    and ub: "rd (uncompressed_chunk t2) 0 (rbytes t) = chunk_data g t"
    and rb: "rbytes t2 = rbytes t" and cz: "chunksize t2 = chunksize t"
    and ci: "chunk_id t2 = chunk_id t"
    and ck: "encrypt_type g = 0 \<longrightarrow> checksum t2 = compute_checksum E (chunk_data g t) (cksum_mt t)"
    and ndv: "\<not> (dedup_on g \<and> rctx_valid t2)" by blast
  have ad': "adapt_mode g \<Longrightarrow> rv' < 8" using ad rvs by auto
  show ?thesis
  proof (cases "encrypt_type g = 0")
    case True
    from plain[OF True] have m: "mac_bytes g = 4" and chain: "crc_chains E" and codec: "cksum_codec g E"
      by simp_all
    from ck True have ck': "checksum t2 = compute_checksum E (chunk_data g t) (cksum_mt t)" by simp
    show ?thesis
      unfolding if_P[OF True]
      by (rule raw_round_trip_plain[OF True m so fb ub rb cz ck' ndv ad' pos le big chain codec])
  next
    case False
    from crypt[OF False] have mc: "mac_codec g E"
      and cr: "crypto_inverts E (chunk_data g t) (chunk_id t)" by simp_all
    show ?thesis
      unfolding if_not_P[OF False]
      by (rule raw_round_trip_crypt[OF False so fb ub rb cz ci ndv ad' pos le big mc cr])
  qed
qed

theorem uncompressed_fallback_witness:
  "(\<exists>t' S M flag.
     perform_compress opts_LP toy (slot_of [1, 2, 3, 4] 4) = Inr t'
   \<and> frame_bytes t' = htonll 4 @ S @ M @ [flag] @ [1, 2, 3, 4]
   \<and> length S = 1 \<and> length M = 4 \<and> \<not> bit flag 0
   \<and> (\<exists>d1 u. read_chunk opts_LP 4 (frame_bytes t') (slot_of [] 4) = Inr (Some (d1, []))
          \<and> perform_decompress opts_LP (toy\<lparr>decompress := \<lambda>x n l c. (- 1, [])\<rparr>) d1 = Inr u
          \<and> rd (cmp_seg u) 0 (len_cmp u) = [1, 2, 3, 4]))
   \<and> (\<exists>t' S M flag.
     perform_compress opts_crypt toy (slot_of [1, 2, 3, 4] 4) = Inr t'
   \<and> frame_bytes t' = htonll 4 @ S @ M @ [flag] @ [91, 88, 89, 94]
   \<and> length S = 0 \<and> length M = 1 \<and> \<not> bit flag 0
   \<and> (\<exists>d1 u. read_chunk opts_crypt 4 (frame_bytes t') (slot_of [] 4) = Inr (Some (d1, []))
          \<and> perform_decompress opts_crypt (toy\<lparr>decompress := \<lambda>x n l c. (- 1, [])\<rparr>) d1 = Inr u
          \<and> rd (cmp_seg u) 0 (len_cmp u) = [1, 2, 3, 4]))"
proof -
  let ?t = "slot_of [1, 2, 3, 4] 4"
  have rb: "rbytes ?t = 4" and cz: "chunksize ?t = 4" by (simp_all add: slot_sel)
  have fail: "(- 1 :: int) < 0 \<or> length ([] :: bytes) \<ge> rbytes ?t" by simp
  have pos: "0 < rbytes ?t" and le: "rbytes ?t \<le> chunksize ?t" by (simp_all add: slot_sel)
  have dsl: "cksum_mt (slot_of [] 4) = cksum_mt ?t \<and> chunksize (slot_of [] 4) = chunksize ?t
      \<and> chunk_id (slot_of [] 4) = chunk_id ?t" by (simp add: slot_sel)
  have A: "\<exists>t' S M flag.
     perform_compress opts_LP toy ?t = Inr t'
   \<and> frame_bytes t' = htonll 4 @ S @ M @ [flag] @ [1, 2, 3, 4]
   \<and> length S = 1 \<and> length M = 4 \<and> \<not> bit flag 0
   \<and> (\<exists>d1 u. read_chunk opts_LP 4 (frame_bytes t') (slot_of [] 4) = Inr (Some (d1, []))
          \<and> perform_decompress opts_LP (toy\<lparr>decompress := \<lambda>x n l c. (- 1, [])\<rparr>) d1 = Inr u
          \<and> rd (cmp_seg u) 0 (len_cmp u) = [1, 2, 3, 4])"
  proof -
    have cd: "chunk_data opts_LP ?t = [1, 2, 3, 4]"
      by (simp add: chunk_data_def dedup_on_def opts_LP_sel slot_sel rd_def)
    have na1: "\<not> lzp_applied opts_LP toy (chunk_data opts_LP ?t) (level ?t)"
      unfolding cd by (simp add: lzp_applied_def toy_eval)
    have na2: "\<not> delta2_applied opts_LP toy (chunk_data opts_LP ?t) (delta2_span ?t)"
      unfolding cd by (simp add: delta2_applied_def toy_eval)
    have nd: "dedup_on opts_LP \<Longrightarrow> \<not> fst (dedupe_compress toy (chunk_data opts_LP ?t))"
      by (simp add: dedup_on_def opts_LP_sel)
    have be: "compress toy (chunk_data opts_LP ?t) (rbytes ?t) (level ?t) 0 = (- 1, [])"
      unfolding cd by (simp add: toy_sel rle_compress_def)
    have ad: "adapt_mode opts_LP \<Longrightarrow> (- 1 :: int) < 8" by simp
    have big: "cksum_bytes opts_LP + mac_bytes opts_LP + rbytes ?t + 9 < 2 ^ 64"
      unfolding rb by (simp add: opts_LP_sel)
    have plain: "encrypt_type opts_LP = 0 \<Longrightarrow>
        mac_bytes opts_LP = 4 \<and> crc_chains toy \<and> cksum_codec opts_LP toy"
      using crc_chains_toy cksum_codec_toy[OF opts_LP_sel(8)] by (simp add: opts_LP_sel)
    have crypt: "encrypt_type opts_LP \<noteq> 0 \<Longrightarrow>
        mac_codec opts_LP toy \<and> crypto_inverts toy (chunk_data opts_LP ?t) (chunk_id ?t)"
      by (simp add: opts_LP_sel)
    from uncompressed_fallback[OF na1 na2 nd be fail ad pos le big plain crypt]
    obtain t' S M flag where pc: "perform_compress opts_LP toy ?t = Inr t'"
      and fr: "frame_bytes t' = htonll (rbytes ?t + (if rbytes ?t < chunksize ?t then 8 else 0)) @ S @ M
               @ [flag]
               @ (if encrypt_type opts_LP = 0 then chunk_data opts_LP ?t
                  else snd (crypto_buf toy (chunk_data opts_LP ?t) (chunk_id ?t)))
               @ (if rbytes ?t < chunksize ?t then htonll (rbytes ?t) else [])"
      and ls: "length S = cksum_bytes opts_LP" "length M = mac_bytes opts_LP" and b0: "\<not> bit flag 0"
      and dec: "\<forall>d rest f. cksum_mt d = cksum_mt ?t \<and> chunksize d = chunksize ?t \<and> chunk_id d = chunk_id ?t \<longrightarrow>
               (\<exists>d1 u. read_chunk opts_LP (chunksize ?t) (frame_bytes t' @ rest) d = Inr (Some (d1, rest))
                  \<and> perform_decompress opts_LP (toy\<lparr>decompress := f\<rparr>) d1 = Inr u
                  \<and> rd (cmp_seg u) 0 (len_cmp u) = chunk_data opts_LP ?t)"
      by blast
    have fr': "frame_bytes t' = htonll 4 @ S @ M @ [flag] @ [1, 2, 3, 4]"
      using fr unfolding rb cz cd by (simp add: opts_LP_sel)
    from dec[rule_format, of "slot_of [] 4" "[]" "\<lambda>x n l c. (- 1, [])", OF dsl]
    have "\<exists>d1 u. read_chunk opts_LP 4 (frame_bytes t') (slot_of [] 4) = Inr (Some (d1, []))
          \<and> perform_decompress opts_LP (toy\<lparr>decompress := \<lambda>x n l c. (- 1, [])\<rparr>) d1 = Inr u
          \<and> rd (cmp_seg u) 0 (len_cmp u) = [1, 2, 3, 4]"
      unfolding cz cd by simp
    with pc fr' ls b0 show ?thesis by (simp add: opts_LP_sel) blast
  qed
  have B: "\<exists>t' S M flag.
     perform_compress opts_crypt toy ?t = Inr t'
   \<and> frame_bytes t' = htonll 4 @ S @ M @ [flag] @ [91, 88, 89, 94]
   \<and> length S = 0 \<and> length M = 1 \<and> \<not> bit flag 0
   \<and> (\<exists>d1 u. read_chunk opts_crypt 4 (frame_bytes t') (slot_of [] 4) = Inr (Some (d1, []))
          \<and> perform_decompress opts_crypt (toy\<lparr>decompress := \<lambda>x n l c. (- 1, [])\<rparr>) d1 = Inr u
          \<and> rd (cmp_seg u) 0 (len_cmp u) = [1, 2, 3, 4])"
  proof -
    have cd: "chunk_data opts_crypt ?t = [1, 2, 3, 4]"
      by (simp add: chunk_data_def dedup_on_def opts_crypt_sel slot_sel rd_def)
    have na1: "\<not> lzp_applied opts_crypt toy (chunk_data opts_crypt ?t) (level ?t)"
      by (simp add: lzp_applied_def opts_crypt_sel)
    have na2: "\<not> delta2_applied opts_crypt toy (chunk_data opts_crypt ?t) (delta2_span ?t)"
      by (simp add: delta2_applied_def opts_crypt_sel)
    have nd: "dedup_on opts_crypt \<Longrightarrow> \<not> fst (dedupe_compress toy (chunk_data opts_crypt ?t))"
      by (simp add: dedup_on_def opts_crypt_sel)
    have be: "compress toy (chunk_data opts_crypt ?t) (rbytes ?t) (level ?t) 0 = (- 1, [])"
      unfolding cd by (simp add: toy_sel rle_compress_def)
    have ad: "adapt_mode opts_crypt \<Longrightarrow> (- 1 :: int) < 8" by simp
    have big: "cksum_bytes opts_crypt + mac_bytes opts_crypt + rbytes ?t + 9 < 2 ^ 64"
      unfolding rb by (simp add: opts_crypt_sel)
    have plain: "encrypt_type opts_crypt = 0 \<Longrightarrow>
        mac_bytes opts_crypt = 4 \<and> crc_chains toy \<and> cksum_codec opts_crypt toy"
      by (simp add: opts_crypt_sel)
    have crypt: "encrypt_type opts_crypt \<noteq> 0 \<Longrightarrow>
        mac_codec opts_crypt toy \<and> crypto_inverts toy (chunk_data opts_crypt ?t) (chunk_id ?t)"
      using mac_codec_toy[OF opts_crypt_sel(9)] crypto_inverts_toy by simp
    from uncompressed_fallback[OF na1 na2 nd be fail ad pos le big plain crypt]
    obtain t' S M flag where pc: "perform_compress opts_crypt toy ?t = Inr t'"
      and fr: "frame_bytes t' = htonll (rbytes ?t + (if rbytes ?t < chunksize ?t then 8 else 0)) @ S @ M
               @ [flag]
               @ (if encrypt_type opts_crypt = 0 then chunk_data opts_crypt ?t
                  else snd (crypto_buf toy (chunk_data opts_crypt ?t) (chunk_id ?t)))
               @ (if rbytes ?t < chunksize ?t then htonll (rbytes ?t) else [])"
      and ls: "length S = cksum_bytes opts_crypt" "length M = mac_bytes opts_crypt" and b0: "\<not> bit flag 0"
      and dec: "\<forall>d rest f. cksum_mt d = cksum_mt ?t \<and> chunksize d = chunksize ?t \<and> chunk_id d = chunk_id ?t \<longrightarrow>
               (\<exists>d1 u. read_chunk opts_crypt (chunksize ?t) (frame_bytes t' @ rest) d = Inr (Some (d1, rest))
                  \<and> perform_decompress opts_crypt (toy\<lparr>decompress := f\<rparr>) d1 = Inr u
                  \<and> rd (cmp_seg u) 0 (len_cmp u) = chunk_data opts_crypt ?t)"
      by blast
    have fr': "frame_bytes t' = htonll 4 @ S @ M @ [flag] @ [91, 88, 89, 94]"
      using fr unfolding rb cz cd by (simp add: opts_crypt_sel toy_crypt_sel)
    from dec[rule_format, of "slot_of [] 4" "[]" "\<lambda>x n l c. (- 1, [])", OF dsl]
    have "\<exists>d1 u. read_chunk opts_crypt 4 (frame_bytes t') (slot_of [] 4) = Inr (Some (d1, []))
          \<and> perform_decompress opts_crypt (toy\<lparr>decompress := \<lambda>x n l c. (- 1, [])\<rparr>) d1 = Inr u
          \<and> rd (cmp_seg u) 0 (len_cmp u) = [1, 2, 3, 4]"
      unfolding cz cd by simp
    with pc fr' ls b0 show ?thesis by (simp add: opts_crypt_sel)
  qed
  from A B show ?thesis by (rule conjI)
qed

text \<open>
  C5, as the specification words it, covers every chunk on which the backend errors.
  With LZP and Delta2 enabled both stages take on the chunk 9 9 5 6, the run-length
  codec errors on the chunk, before and after preprocessing, and the chunk is
  written with the flag byte 5 (\<^verbatim>\<open>COMPRESSED\<close> set), the length 3 and the
  preprocessed payload 3 5 6.
\<close>

theorem uncompressed_fallback_counterexample:
  "compress toy = rle_compress
   \<and> lzp_applied opts_LP toy [9, 9, 5, 6] 6 \<and> delta2_applied opts_LP toy [9, 5, 6] 50
   \<and> fst (rle_compress [9, 9, 5, 6] 4 6 0) < 0 \<and> fst (rle_compress [5, 6] 2 6 0) < 0
   \<and> (\<exists>t'. perform_compress opts_LP toy (slot_of [9, 9, 5, 6] 4) = Inr t'
         \<and> frame_bytes t' = htonll 3 @ [29]
              @ htonl (lzma_crc32 toy (htonll 3 @ [29] @ replicate 4 0 @ [5]) 0) @ [5] @ [3, 5, 6])
   \<and> bit (5 :: byte) 0"
  using frame_9956
  by (simp add: toy_sel rle_compress_def lzp_applied_def delta2_applied_def toy_eval)




text \<open>
  C3. For every regular input file whose size is positive and at most the configured
  chunk size, \<^verbatim>\<open>start_compress\<close> sets \<^verbatim>\<open>FLAG_SINGLE_CHUNK\<close> in the file
  header and makes the file size the chunk size. The flag byte of the single chunk
  has \<^verbatim>\<open>CHSIZE_MASK\<close> set, and the chunk length is appended after the
  payload, exactly when dedup left the chunk shorter than the file; for a chunk that
  dedup did not reduce \<^verbatim>\<open>CHSIZE_MASK\<close> is clear and the frame ends with the
  payload.
\<close>

theorem single_chunk_file:
  assumes pos: "0 < st_size" and small: "st_size \<le> csize"
    and fs: "file_setup g FLAG_DEDUP FLAG_DEDUP_FIXED FLAG_SINGLE_CHUNK cksum False st_size csize
               = Some (flags, csz, single)"
    and slot: "chunksize t = csz" "rbytes t = min csz st_size"
    and pc: "perform_compress g E t = Inr t'"
    and so: "stage_out g E t = (t2, rv, c2)"
    and fit: "mac_fits g E"
    and ad: "adapt_mode g \<Longrightarrow> rv < 8"
  shows "flags AND FLAG_SINGLE_CHUNK = FLAG_SINGLE_CHUNK \<and> single \<and> csz = st_size
     \<and> rbytes t = st_size
     \<and> (bit (frame_bytes t' ! hdr_off g) 7 \<longleftrightarrow> rbytes t2 < st_size)
     \<and> (\<not> (dedup_on g \<and> rctx_valid t2) \<longrightarrow> \<not> bit (frame_bytes t' ! hdr_off g) 7)
     \<and> length (frame_bytes t')
         = hdr_off g + 1 + payload_len t2 (rbytes t) rv c2 + (if rbytes t2 < st_size then 8 else 0)
     \<and> drop (hdr_off g + 1 + payload_len t2 (rbytes t) rv c2) (frame_bytes t')
         = (if rbytes t2 < st_size then htonll (rbytes t2) else [])"
proof -
  from fs pos small have fl: "flags AND FLAG_SINGLE_CHUNK = FLAG_SINGLE_CHUNK"
    and sg: single and cz: "csz = st_size"
    by (auto simp: file_setup_def Let_def and_or_absorb and_or_absorb2 split: if_splits)
  have rb: "rbytes t = st_size" using slot cz by simp
  note K = stage_out_keeps[OF so]
  have c2: "chunksize t2 = st_size" using K(1) slot cz by simp
  from pc have fc: "frame_chunk g E t2 (rbytes t) rv c2 = Inr t'"
    unfolding perform_compress_stage so prod.case .
  note F = frame_flag_byte[OF pc so fit]
  have b7: "bit (frame_bytes t' ! hdr_off g) 7 \<longleftrightarrow> rbytes t2 < st_size"
    using flag_of_bits[where g = g and t = t2 and ?rbytes0.0 = "rbytes t" and ?rv0.0 = rv
        and csz = c2 and n = 7, OF ad]
    unfolding F(2) c2 by simp
  have nb: "\<not> (dedup_on g \<and> rctx_valid t2) \<longrightarrow> \<not> bit (frame_bytes t' ! hdr_off g) 7"
    unfolding b7 using K(2) rb by auto
  note T = frame_chunk_trailer[OF fc fit]
  have tr: "trailer_of t2 = (if rbytes t2 < st_size then htonll (rbytes t2) else [])"
    by (simp add: trailer_of_def c2)
  let ?o = "hdr_off g + 1 + payload_len t2 (rbytes t) rv c2"
  have ln: "length (frame_bytes t') = ?o + (if rbytes t2 < st_size then 8 else 0)"
    unfolding frame_bytes_def using T(1) by (simp add: tr)
  have "frame_bytes t' = rd (cmp_seg t') 0 ?o @ rd (cmp_seg t') (0 + ?o) (length (trailer_of t2))"
    unfolding frame_bytes_def T(1) by (rule rd_split)
  then have "drop ?o (frame_bytes t') = trailer_of t2" using T(2) by simp
  then have dr: "drop ?o (frame_bytes t') = (if rbytes t2 < st_size then htonll (rbytes t2) else [])"
    unfolding tr .
  from fl sg cz rb b7 nb ln dr show ?thesis by (intro conjI)
qed

theorem single_chunk_file_witness:
  "file_setup opts_plain 1 2 4 256 False 4 8 = Some (260, 4, True)
   \<and> 260 AND 4 = (4 :: int)
   \<and> (\<exists>t'. perform_compress opts_plain toy (slot_of [1, 2, 3, 4] 4) = Inr t'
         \<and> \<not> bit (frame_bytes t' ! hdr_off opts_plain) 7
         \<and> length (frame_bytes t') = 18
         \<and> drop 18 (frame_bytes t') = [])"
proof -
  let ?t = "slot_of [1, 2, 3, 4] 4"
  have fs: "file_setup opts_plain 1 2 4 256 False 4 8 = Some (260, 4, True)"
    by (simp add: file_setup_def opts_plain_sel)
  have slot: "chunksize ?t = 4" "rbytes ?t = min 4 4" by (simp_all add: slot_sel)
  have cd: "chunk_data opts_plain ?t = [1, 2, 3, 4]"
    by (simp add: chunk_data_def dedup_on_def opts_plain_sel slot_sel rd_def)
  have np: "\<not> preproc_on opts_plain" by (simp add: preproc_on_def opts_plain_sel)
  have nd: "dedup_on opts_plain \<Longrightarrow> \<not> fst (dedupe_compress toy (chunk_data opts_plain ?t))"
    by (simp add: dedup_on_def opts_plain_sel)
  have be: "compress toy (chunk_data opts_plain ?t) (rbytes ?t) (level ?t) 0 = (- 1, [])"
    unfolding cd by (simp add: toy_sel rle_compress_def)
  from stage_out_raw[OF np nd be] obtain t2 where
    so: "stage_out opts_plain toy ?t = (t2, - 1, length ([] :: bytes))"
    and rb2: "rbytes t2 = rbytes ?t" by blast
  from frame_1234 obtain t' where pc: "perform_compress opts_plain toy ?t = Inr t'" by blast
  have fit: "mac_fits opts_plain toy" by (simp add: mac_fits_def opts_plain_sel)
  have ad: "adapt_mode opts_plain \<Longrightarrow> (- 1 :: int) < 8" by simp
  have p4: "(0 :: nat) < 4" "(4 :: nat) \<le> 8" by simp_all
  have pl: "payload_len t2 (rbytes ?t) (- 1) (length ([] :: bytes)) = 4"
    by (simp add: payload_len_def fallback_of_def rb2 slot_sel)
  have ho: "hdr_off opts_plain = 13" by (simp add: hdr_off_def opts_plain_sel COMPRESSED_CHUNKSZ_def)
  have r4: "\<not> rbytes t2 < 4" by (simp add: rb2 slot_sel)
  from single_chunk_file[OF p4 fs slot pc so fit ad]
  have "\<not> bit (frame_bytes t' ! hdr_off opts_plain) 7
         \<and> length (frame_bytes t') = 18 \<and> drop 18 (frame_bytes t') = []"
    unfolding pl using r4 by (simp add: ho)
  moreover have "260 AND 4 = (4 :: int)" by (simp add: and_or_absorb[of 0 4 256, simplified])
  ultimately show ?thesis using fs pc by blast
qed

text \<open>
  C3, as the specification words it, has \<^verbatim>\<open>CHSIZE_MASK\<close> set and the original
  size appended for every small file. A file of 4 bytes with a configured chunk size
  of 8, compressed without dedup, gets the chunk size 4; its one chunk has the flag
  byte 0 and the frame ends with the 4 payload bytes.
\<close>

theorem single_chunk_file_counterexample:
  "file_setup opts_plain 1 2 4 256 False 4 8 = Some (260, 4, True)
   \<and> (\<exists>t'. perform_compress opts_plain toy (slot_of [1, 2, 3, 4] 4) = Inr t'
         \<and> frame_bytes t' = htonll 4 @ [10]
              @ htonl (expected_crc toy (htonll 4) [10] 0 []) @ [0] @ [1, 2, 3, 4]
         \<and> frame_bytes t' ! hdr_off opts_plain = 0
         \<and> \<not> bit (0 :: byte) 7)"
proof -
  have fs: "file_setup opts_plain 1 2 4 256 False 4 8 = Some (260, 4, True)"
    by (simp add: file_setup_def opts_plain_sel)
  from frame_1234 obtain t' where pc: "perform_compress opts_plain toy (slot_of [1, 2, 3, 4] 4) = Inr t'"
    and fr: "frame_bytes t' = htonll 4 @ [10]
          @ htonl (expected_crc toy (htonll 4) [10] 0 []) @ [0] @ [1, 2, 3, 4]" by blast
  have "frame_bytes t' ! hdr_off opts_plain = 0"
    unfolding fr by (simp add: hdr_off_def opts_plain_sel COMPRESSED_CHUNKSZ_def nth_append)
  with fs pc fr show ?thesis by simp
qed

text \<open>
  C1 fails on a chunk that is preprocessed and then stored raw. On the chunk 7 7 5 6
  LZP takes and leaves 7 5 6; \<^verbatim>\<open>preproc_compress\<close> copies that back over the
  chunk (line 250), the backend errors, and the preprocessed payload with its type
  byte is as long as the chunk. \<^verbatim>\<open>perform_compress\<close> then stores the chunk raw
  from the buffer that was overwritten (line 1460): 7 5 6 6. In non-crypto mode
  \<^verbatim>\<open>perform_decompress\<close> ends in the checksum mismatch; in crypto mode, which
  has no plaintext checksum, it gives back 7 5 6 6. The LZP stand-in is inverted by
  its decoder on this chunk.
\<close>

theorem round_trip_breaks:
  "lzp_toy_decompress (snd (lzp_toy_compress [7, 7, 5, 6] 6)) 6 = (4, [7, 7, 5, 6])
   \<and> (\<exists>t' d1. perform_compress opts_LP toy (slot_of [7, 7, 5, 6] 4) = Inr t'
         \<and> frame_bytes t' = htonll 4 @ [25]
              @ htonl (expected_crc toy (htonll 4) [25] 4 []) @ [4] @ [7, 5, 6, 6]
         \<and> read_chunk opts_LP 4 (frame_bytes t') (slot_of [] 4) = Inr (Some (d1, []))
         \<and> perform_decompress opts_LP toy d1 = Inl ChecksumFail)
   \<and> (\<exists>t' d1 u. perform_compress opts_Lcrypt toy (slot_of [7, 7, 5, 6] 4) = Inr t'
         \<and> read_chunk opts_Lcrypt 4 (frame_bytes t') (slot_of [] 4) = Inr (Some (d1, []))
         \<and> perform_decompress opts_Lcrypt toy d1 = Inr u
         \<and> rd (cmp_seg u) 0 (len_cmp u) = [7, 5, 6, 6])"
proof -
  have a: "lzp_toy_decompress (snd (lzp_toy_compress [7, 7, 5, 6] 6)) 6 = (4, [7, 7, 5, 6])"
    by (simp add: lzp_toy_compress_def lzp_toy_decompress_def)
  from frame_7756 obtain t' where pc: "perform_compress opts_LP toy (slot_of [7, 7, 5, 6] 4) = Inr t'"
    and fr: "frame_bytes t' = htonll 4 @ [25]
          @ htonl (expected_crc toy (htonll 4) [25] 4 []) @ [4] @ [7, 5, 6, 6]" by blast
  from read_back_7756 obtain d1 where
    "read_chunk opts_LP 4 (frame_bytes t') (slot_of [] 4) = Inr (Some (d1, []))"
    "perform_decompress opts_LP toy d1 = Inl ChecksumFail" unfolding fr by blast
  with pc fr have b: "\<exists>t' d1. perform_compress opts_LP toy (slot_of [7, 7, 5, 6] 4) = Inr t'
         \<and> frame_bytes t' = htonll 4 @ [25]
              @ htonl (expected_crc toy (htonll 4) [25] 4 []) @ [4] @ [7, 5, 6, 6]
         \<and> read_chunk opts_LP 4 (frame_bytes t') (slot_of [] 4) = Inr (Some (d1, []))
         \<and> perform_decompress opts_LP toy d1 = Inl ChecksumFail" by blast
  from a b silent_7756 show ?thesis by (intro conjI)
qed

end
